theory Spec2Isabelle
  imports Complex_Main
begin

section \<open>Data model\<close>

text \<open>
  Python strings are sequences of code points; a \<^typ>\<open>string\<close> here is a sequence of
  code points below 256, one \<^typ>\<open>char\<close> each, so that \<^const>\<open>length\<close> is Python's
  \<^verbatim>\<open>len\<close>. Python integers are \<^typ>\<open>int\<close>. A floating-point number is the real number
  that is its value, of type \<^typ>\<open>real\<close>; the operations of the code on floats round
  their results, as written out where the code computes (see the retriever).
\<close>

type_synonym vector = "real list"

text \<open>A metadata dictionary \<^verbatim>\<open>{"text": .., "source": .., "chunk_id": ..}\<close>; the field
  \<open>mtext\<close> is its \<^verbatim>\<open>"text"\<close> entry.\<close>

record meta =
  mtext :: string
  source :: string
  chunk_id :: int

text \<open>
  The two attributes of \<^verbatim>\<open>FAISSVectorStore\<close> that change: the FAISS index (a flat index
  is the sequence of the vectors added so far) and the metadata list.
\<close>

record vstore =
  index :: "vector list"
  metadata :: "meta list"

text \<open>The two persisted artifacts, \<^verbatim>\<open>index_path\<close> and \<^verbatim>\<open>index_path + ".meta"\<close>; \<open>None\<close> when
  the file does not exist.\<close>

record disk =
  index_file :: "vector list option"
  meta_file :: "meta list option"

text \<open>\<^verbatim>\<open>DocumentIngestor\<close>: its two constructor parameters.\<close>

record ingestor =
  chunk_size :: int
  overlap :: int

text \<open>The dictionary returned by \<^verbatim>\<open>get_stats\<close>; \<open>sources\<close> lists each source once (Python
  builds the list from a set, in an order of its own).\<close>

record stats =
  total_chunks :: nat
  total_documents :: nat
  sources :: "string list"

text \<open>A chunk object of \<^verbatim>\<open>retrieve_with_chunks\<close>: the three metadata entries and
  \<^verbatim>\<open>"relevance_score"\<close>.\<close>

record chunk_view = meta +
  relevance_score :: real

text \<open>The success response of the \<^verbatim>\<open>/ingest\<close> endpoint.\<close>

record response =
  status :: string
  filename :: string
  chunks_created :: nat

datatype error =
    AssertionError
  | ZeroDivisionError
  | HTTPException nat string
  | OSError

section \<open>Strings\<close>

text \<open>\<^verbatim>\<open>str.isspace\<close> on the code points below 256.\<close>

definition isspace :: "char \<Rightarrow> bool" where
  "isspace c = (of_char c \<in> {9, 10, 11, 12, 13, 28, 29, 30, 31, 32, 133, 160 :: nat})"

text \<open>\<^verbatim>\<open>text.split()\<close>: the maximal runs of non-whitespace characters, in order. The first
  argument is the word being read, reversed.\<close>

fun split_acc :: "string \<Rightarrow> string \<Rightarrow> string list" where
  "split_acc w [] = (if w = [] then [] else [rev w])"
| "split_acc w (c # cs) =
     (if isspace c then (if w = [] then split_acc [] cs else rev w # split_acc [] cs)
      else split_acc (c # w) cs)"

definition split :: "string \<Rightarrow> string list" where
  "split s = split_acc [] s"

text \<open>\<^verbatim>\<open>" ".join(ws)\<close>.\<close>

fun join :: "string list \<Rightarrow> string" where
  "join [] = []"
| "join [w] = w"
| "join (w # v # ws) = w @ CHR '' '' # join (v # ws)"

text \<open>\<^verbatim>\<open>s.strip()\<close>.\<close>

definition strip :: "string \<Rightarrow> string" where
  "strip s = rev (dropWhile isspace (rev (dropWhile isspace s)))"

text \<open>\<^verbatim>\<open>s.endswith(suffix)\<close>.\<close>

definition endswith :: "string \<Rightarrow> string \<Rightarrow> bool" where
  "endswith s suffix = (length suffix \<le> length s \<and> drop (length s - length suffix) s = suffix)"

text \<open>\<^verbatim>\<open>xs[a:b]\<close> for integers \<open>a\<close> and \<open>b\<close>: a negative bound counts from the end, and both
  bounds are clipped to the list.\<close>

definition clip :: "nat \<Rightarrow> int \<Rightarrow> nat" where
  "clip n a = (if a < 0 then nat (max 0 (int n + a)) else min n (nat a))"

definition slice :: "'a list \<Rightarrow> int \<Rightarrow> int \<Rightarrow> 'a list" where
  "slice xs a b = take (clip (length xs) b - clip (length xs) a) (drop (clip (length xs) a) xs)"

section \<open>Chunker (\<^verbatim>\<open>ingestion.py\<close>)\<close>

text \<open>
  The loop \<^verbatim>\<open>for i in range(0, len(words), step)\<close> of \<^verbatim>\<open>chunk_text\<close>, with \<open>i\<close> the
  current offset and \<open>chunks\<close> the list built so far.
\<close>

definition step_of :: "ingestor \<Rightarrow> nat" where
  "step_of ing = nat (max 1 (chunk_size ing - overlap ing))"

function chunk_loop :: "ingestor \<Rightarrow> string list \<Rightarrow> nat \<Rightarrow> string list \<Rightarrow> string list" where
  "chunk_loop ing words i chunks =
     (if i < length words then
        (let block = strip (join (slice words (int i) (int i + chunk_size ing)))
         in chunk_loop ing words (i + step_of ing)
              (if 50 < length block then chunks @ [block] else chunks))
      else chunks)"
  by pat_completeness auto
termination
  by (relation "measure (\<lambda>(ing, words, i, chunks). length words - i)")
     (auto simp: step_of_def)

definition chunk_text :: "ingestor \<Rightarrow> string \<Rightarrow> string list" where
  "chunk_text ing s = chunk_loop ing (split s) 0 []"

text \<open>The offsets that \<^verbatim>\<open>range(i, n, st)\<close> runs through, for \<open>st > 0\<close>.\<close>

definition offsets :: "nat \<Rightarrow> nat \<Rightarrow> nat \<Rightarrow> nat list" where
  "offsets n st i = map (\<lambda>k. i + k * st) [0..<(n - i + st - 1) div st]"

text \<open>A word: a non-empty string without whitespace.\<close>

definition word :: "string \<Rightarrow> bool" where
  "word w = (w \<noteq> [] \<and> (\<forall>c\<in>set w. \<not> isspace c))"

text \<open>\<^verbatim>\<open>os.path.basename\<close> and \<^verbatim>\<open>os.path.join\<close> (POSIX, two components).\<close>

definition basename :: "string \<Rightarrow> string" where
  "basename p = rev (takeWhile (\<lambda>c. c \<noteq> CHR ''/'') (rev p))"

definition path_join :: "string \<Rightarrow> string \<Rightarrow> string" where
  "path_join a b =
     (if b \<noteq> [] \<and> hd b = CHR ''/'' then b
      else if a = [] \<or> last a = CHR ''/'' then a @ b
      else a @ ''/'' @ b)"

text \<open>
  \<^verbatim>\<open>process_document\<close>. Text extraction (\<^verbatim>\<open>load_pdf\<close>, \<^verbatim>\<open>load_txt\<close>) is an external
  collaborator: \<open>content\<close> is the text it returns for the file at \<open>filepath\<close>.
\<close>

definition process_document :: "ingestor \<Rightarrow> string \<Rightarrow> string \<Rightarrow> string list \<times> string" where
  "process_document ing filepath content =
     (let filename = basename filepath
      in if endswith filepath ''.pdf'' then (chunk_text ing content, filename)
         else if endswith filepath ''.txt'' then (chunk_text ing content, filename)
         else ([], filename))"

section \<open>Vector store (\<^verbatim>\<open>vectorstore.py\<close>)\<close>

text \<open>
  The embedding model is a parameter \<open>enc\<close>, the vector of one text;
  \<^verbatim>\<open>model.encode(chunks)\<close> is \<open>map enc chunks\<close>.

  The constructor \<^verbatim>\<open>__init__\<close>, given the persisted artifacts. It has no \<^verbatim>\<open>raise\<close>: both
  branches return an instance.
\<close>

definition init :: "disk \<Rightarrow> error + vstore" where
  "init d =
     (case (index_file d, meta_file d) of
        (Some iv, Some md) \<Rightarrow> Inr \<lparr>index = iv, metadata = md\<rparr>
      | _ \<Rightarrow> Inr \<lparr>index = [], metadata = []\<rparr>)"

text \<open>\<^verbatim>\<open>save\<close> writes both artifacts.\<close>

definition save :: "vstore \<Rightarrow> disk" where
  "save st = \<lparr>index_file = Some (index st), meta_file = Some (metadata st)\<rparr>"

text \<open>The loop \<^verbatim>\<open>for i, text in enumerate(chunks): self.metadata.append(...)\<close>.\<close>

fun append_meta :: "meta list \<Rightarrow> string \<Rightarrow> nat \<Rightarrow> string list \<Rightarrow> meta list" where
  "append_meta md src i [] = md"
| "append_meta md src i (t # ts) =
     append_meta (md @ [\<lparr>mtext = t, source = src, chunk_id = int i\<rparr>]) src (Suc i) ts"

definition add_documents ::
  "(string \<Rightarrow> vector) \<Rightarrow> vstore \<times> disk \<Rightarrow> string list \<Rightarrow> string \<Rightarrow> vstore \<times> disk" where
  "add_documents enc sd chunks src =
     (if list_ex (\<lambda>m. source m = src) (metadata (fst sd)) then sd
      else if chunks = [] then sd
      else
        (let embeddings = map enc chunks;
             st1 = (fst sd)\<lparr>index := index (fst sd) @ embeddings\<rparr>;
             st2 = st1\<lparr>metadata := append_meta (metadata st1) src 0 chunks\<rparr>
         in (st2, save st2)))"

text \<open>
  \<^verbatim>\<open>IndexFlatL2\<close> of the FAISS library: \<^verbatim>\<open>add\<close> appends the vectors, \<^verbatim>\<open>ntotal\<close> is their
  number, and \<^verbatim>\<open>search\<close> for one query returns the \<open>k\<close> smallest squared Euclidean
  distances in ascending order, each with the position of its vector; it requires
  \<open>k > 0\<close>, and pads with the label \<open>-1\<close> when the index holds fewer than \<open>k\<close> vectors.
  FAISS computes the squared Euclidean distance in single precision, in an order of
  additions that its interface does not fix: the distance that the index computes is
  the parameter \<open>l2\<close> of the model, and the distances returned are its values. Among
  equal distances the model lists the lower position first; no property below depends
  on that order. \<open>flt_max\<close> is the largest single-precision number, the distance of a
  padded entry.
\<close>

definition flt_max :: real where
  "flt_max = 340282346638528859811704183484516925440"

definition faiss_search ::
  "(vector \<Rightarrow> vector \<Rightarrow> real) \<Rightarrow> vector list \<Rightarrow> vector \<Rightarrow> int
     \<Rightarrow> error + (real \<times> int) list" where
  "faiss_search l2 xs q k =
     (if k \<le> 0 then Inl AssertionError
      else Inr (take (nat k)
                  (sort_key fst (map (\<lambda>(i, x). (l2 q x, int i)) (enumerate 0 xs)))
                @ replicate (nat k - length xs) (flt_max, - 1)))"

text \<open>The loop \<^verbatim>\<open>for dist, idx in zip(D[0], I[0])\<close> of \<^verbatim>\<open>search\<close>.\<close>

fun collect :: "meta list \<Rightarrow> (real \<times> int) list \<Rightarrow> (meta \<times> real) list \<Rightarrow> (meta \<times> real) list" where
  "collect md [] out = out"
| "collect md ((d, idx) # rest) out =
     collect md rest
       (if 0 \<le> idx \<and> idx < int (length md) then out @ [(md ! nat idx, d)] else out)"

definition search ::
  "(string \<Rightarrow> vector) \<Rightarrow> (vector \<Rightarrow> vector \<Rightarrow> real) \<Rightarrow> vstore \<Rightarrow> string \<Rightarrow> int
     \<Rightarrow> error + (meta \<times> real) list" where
  "search enc l2 st query top_k =
     (if length (index st) = 0 then Inr []
      else
        (case faiss_search l2 (index st) (enc query) (min top_k (int (length (index st)))) of
           Inl e \<Rightarrow> Inl e
         | Inr DI \<Rightarrow> Inr (collect (metadata st) DI [])))"

definition get_stats :: "vstore \<Rightarrow> stats" where
  "get_stats st =
     (let srcs = remdups (map source (metadata st))
      in \<lparr>total_chunks = length (index st), total_documents = length srcs, sources = srcs\<rparr>)"

section \<open>Retriever (\<^verbatim>\<open>retrieval.py\<close>)\<close>

text \<open>\<^verbatim>\<open>str(n)\<close> for an integer, as the f-strings print \<^verbatim>\<open>i\<close> and \<^verbatim>\<open>chunk_id\<close>.\<close>

definition digit :: "nat \<Rightarrow> char" where
  "digit n = char_of (48 + n)"

function digits :: "nat \<Rightarrow> string" where
  "digits n = (if n < 10 then [digit n] else digits (n div 10) @ [digit (n mod 10)])"
  by pat_completeness auto
termination
  by (relation "measure (\<lambda>n. n)") auto

definition str_int :: "int \<Rightarrow> string" where
  "str_int i = (if i < 0 then CHR ''-'' # digits (nat (- i)) else digits (nat i))"

text \<open>Rounding a real number to the nearest integer, to the even one at a tie.\<close>

definition round_half_even :: "real \<Rightarrow> int" where
  "round_half_even x =
     (let f = \<lfloor>x\<rfloor>; r = x - of_int f
      in if r < 1 / 2 then f else if 1 / 2 < r then f + 1 else if even f then f else f + 1)"

text \<open>
  Python floats are IEEE doubles. \<open>fl x\<close> is the double nearest to the real number \<open>x\<close>,
  the one with the even significand at a tie: \<open>x\<close> is scaled so that its leading binary
  digit is digit 53, rounded to an integer and scaled back. The sum and the quotient of
  two doubles are \<open>fl\<close> of their exact sum and quotient. The exponent range is not
  modelled: \<open>fl\<close> is the rounding of the machine for magnitudes from \<open>2 ^ -1022\<close> up to
  \<open>2 ^ 1024\<close>, which holds every sum \<open>1 + d\<close> and quotient \<open>1 / (1 + d)\<close> of a single-precision
  distance \<open>d \<ge> 0\<close>.
\<close>

definition expo :: "real \<Rightarrow> int" where
  "expo x = \<lfloor>log 2 \<bar>x\<bar>\<rfloor>"

definition fl :: "real \<Rightarrow> real" where
  "fl x = (if x = 0 then 0
           else of_int (round_half_even (x * 2 powr (52 - of_int (expo x))))
                * 2 powr (of_int (expo x) - 52))"

text \<open>
  The format \<^verbatim>\<open>{sim:.2f}\<close> prints the exact value of the double rounded to two decimals;
  \<^verbatim>\<open>round(sim, 2)\<close> is the double nearest to that decimal.
\<close>

definition format_2f :: "real \<Rightarrow> string" where
  "format_2f x =
     (let n = nat (round_half_even (\<bar>x\<bar> * 100))
      in (if x < 0 then [CHR ''-''] else []) @ digits (n div 100) @ [CHR ''.'']
         @ [digit (n div 10 mod 10), digit (n mod 10)])"

definition round2 :: "real \<Rightarrow> real" where
  "round2 x = fl (of_int (round_half_even (x * 100)) / 100)"

text \<open>\<^verbatim>\<open>sim = 1 / (1 + dist)\<close> on doubles: the sum is rounded, then the quotient; Python
  raises on a zero divisor.\<close>

definition sim :: "real \<Rightarrow> error + real" where
  "sim d = (if fl (1 + d) = 0 then Inl ZeroDivisionError else Inr (fl (1 / fl (1 + d))))"

text \<open>The two f-strings built for the result of rank \<open>i\<close>.\<close>

definition context_part :: "nat \<Rightarrow> meta \<Rightarrow> string" where
  "context_part i m =
     ''[Source '' @ str_int (int i) @ '': '' @ source m @ '', Chunk '' @ str_int (chunk_id m)
       @ '']'' @ [CHR 0x0A] @ mtext m"

definition citation :: "meta \<Rightarrow> real \<Rightarrow> string" where
  "citation m s =
     source m @ '' (Chunk '' @ str_int (chunk_id m) @ '', Relevance: '' @ format_2f s @ '')''"

text \<open>\<^verbatim>\<open>sep.join(parts)\<close> and the delimiter \<^verbatim>\<open>"\n\n---\n\n"\<close>.\<close>

fun sep_join :: "string \<Rightarrow> string list \<Rightarrow> string" where
  "sep_join sep [] = []"
| "sep_join sep [p] = p"
| "sep_join sep (p # q # ps) = p @ sep @ sep_join sep (q # ps)"

definition delimiter :: string where
  "delimiter = [CHR 0x0A, CHR 0x0A] @ ''---'' @ [CHR 0x0A, CHR 0x0A]"

definition no_documents :: string where
  "no_documents = ''No relevant documents found.''"

text \<open>The loop \<^verbatim>\<open>for i, (m, dist) in enumerate(results, 1)\<close> of \<^verbatim>\<open>retrieve\<close>.\<close>

fun retrieve_loop ::
  "nat \<Rightarrow> (meta \<times> real) list \<Rightarrow> string list \<Rightarrow> string list
     \<Rightarrow> error + (string list \<times> string list)" where
  "retrieve_loop i [] context_parts citations = Inr (context_parts, citations)"
| "retrieve_loop i ((m, d) # rest) context_parts citations =
     (case sim d of
        Inl e \<Rightarrow> Inl e
      | Inr s \<Rightarrow>
          retrieve_loop (Suc i) rest
            (context_parts @ [context_part i m]) (citations @ [citation m s]))"

definition retrieve ::
  "(string \<Rightarrow> vector) \<Rightarrow> (vector \<Rightarrow> vector \<Rightarrow> real) \<Rightarrow> vstore \<Rightarrow> string \<Rightarrow> int
     \<Rightarrow> error + (string \<times> string list)" where
  "retrieve enc l2 st query top_k =
     (case search enc l2 st query top_k of
        Inl e \<Rightarrow> Inl e
      | Inr results \<Rightarrow>
          if results = [] then Inr (no_documents, [])
          else
            (case retrieve_loop 1 results [] [] of
               Inl e \<Rightarrow> Inl e
             | Inr (context_parts, citations) \<Rightarrow>
                 Inr (sep_join delimiter context_parts, citations)))"

text \<open>The loop of \<^verbatim>\<open>retrieve_with_chunks\<close>, which also builds the chunk objects.\<close>

fun chunks_loop ::
  "nat \<Rightarrow> (meta \<times> real) list \<Rightarrow> chunk_view list \<Rightarrow> string list \<Rightarrow> string list
     \<Rightarrow> error + (chunk_view list \<times> string list \<times> string list)" where
  "chunks_loop i [] chunks context_parts citations = Inr (chunks, context_parts, citations)"
| "chunks_loop i ((m, d) # rest) chunks context_parts citations =
     (case sim d of
        Inl e \<Rightarrow> Inl e
      | Inr s \<Rightarrow>
          chunks_loop (Suc i) rest
            (chunks @ [\<lparr>mtext = mtext m, source = source m, chunk_id = chunk_id m,
                         relevance_score = round2 s\<rparr>])
            (context_parts @ [context_part i m]) (citations @ [citation m s]))"

definition retrieve_with_chunks ::
  "(string \<Rightarrow> vector) \<Rightarrow> (vector \<Rightarrow> vector \<Rightarrow> real) \<Rightarrow> vstore \<Rightarrow> string \<Rightarrow> int
     \<Rightarrow> error + (chunk_view list \<times> string \<times> string list)" where
  "retrieve_with_chunks enc l2 st query top_k =
     (case search enc l2 st query top_k of
        Inl e \<Rightarrow> Inl e
      | Inr results \<Rightarrow>
          if results = [] then Inr ([], no_documents, [])
          else
            (case chunks_loop 1 results [] [] [] of
               Inl e \<Rightarrow> Inl e
             | Inr (chunks, context_parts, citations) \<Rightarrow>
                 Inr (chunks, sep_join delimiter context_parts, citations)))"

section \<open>The \<^verbatim>\<open>/ingest\<close> endpoint (\<^verbatim>\<open>api.py\<close>)\<close>

text \<open>
  \<open>fname\<close> is the name of the uploaded file and \<open>content\<close> the text that \<^verbatim>\<open>load_pdf\<close> or
  \<^verbatim>\<open>load_txt\<close> returns for the stored file. The handler first stores the upload: \<open>can_write p\<close> tells whether
  \<^verbatim>\<open>os.makedirs("data", exist_ok=True)\<close> and the write of the file at the path \<open>p\<close>
  succeed; when they do not, the \<^verbatim>\<open>OSError\<close> of the failing call leaves the handler. The
  result is the response or the exception raised, with the store and the artifacts
  afterwards.
\<close>

definition ingest ::
  "(string \<Rightarrow> vector) \<Rightarrow> ingestor \<Rightarrow> (string \<Rightarrow> bool) \<Rightarrow> vstore \<times> disk \<Rightarrow> string \<Rightarrow> string
     \<Rightarrow> (error + response) \<times> (vstore \<times> disk)" where
  "ingest enc ing can_write sd fname content =
     (if \<not> (endswith fname ''.pdf'' \<or> endswith fname ''.txt'')
      then (Inl (HTTPException 400 ''Only PDF/TXT supported''), sd)
      else
        (let path = path_join ''data'' fname
         in if \<not> can_write path then (Inl OSError, sd)
            else
              (let (chunks, name) = process_document ing path content
               in if chunks = [] then (Inl (HTTPException 400 ''No extractable text''), sd)
                  else (Inr \<lparr>status = ''success'', filename = name,
                             chunks_created = length chunks\<rparr>,
                        add_documents enc sd chunks name))))"


section \<open>Sequences of calls and sample data\<close>

text \<open>A sequence of \<^verbatim>\<open>add_documents\<close> calls, each given as its pair of arguments
  \<^verbatim>\<open>(chunks, source)\<close>.\<close>

definition add_all ::
  "(string \<Rightarrow> vector) \<Rightarrow> vstore \<times> disk \<Rightarrow> (string list \<times> string) list \<Rightarrow> vstore \<times> disk" where
  "add_all enc sd calls = fold (\<lambda>c sd'. add_documents enc sd' (fst c) (snd c)) calls sd"

text \<open>The store and the artifacts of a fresh instance with no persisted files.\<close>

definition new_store :: vstore where
  "new_store = \<lparr>index = [], metadata = []\<rparr>"

definition no_files :: disk where
  "no_files = \<lparr>index_file = None, meta_file = None\<rparr>"

text \<open>The ranking of a flat index: the distances to the query with the positions of
  their vectors, in ascending order of distance.\<close>

definition ranked ::
  "(vector \<Rightarrow> vector \<Rightarrow> real) \<Rightarrow> vector \<Rightarrow> vector list \<Rightarrow> (real \<times> int) list" where
  "ranked l2 qv xs = sort_key fst (map (\<lambda>(i, x). (l2 qv x, int i)) (enumerate 0 xs))"

text \<open>A sample distance for concrete evaluations: the exact squared Euclidean
  distance.\<close>

definition l2sq :: "vector \<Rightarrow> vector \<Rightarrow> real" where
  "l2sq x y = sum_list (map (\<lambda>(a, b). (a - b) * (a - b)) (zip x y))"


text \<open>A sample embedding for concrete evaluations: a text is sent to the
  one-dimensional vector of its length.\<close>

definition enc_len :: "string \<Rightarrow> vector" where
  "enc_len s = [real (length s)]"


text \<open>A sample store: three chunks of one source added to a fresh instance.\<close>

definition sample_store :: vstore where
  "sample_store =
     fst (add_all enc_len (new_store, no_files) [([''a'', ''bbbbb'', ''ccc''], ''s.txt'')])"

section \<open>Properties of the chunker\<close>

declare chunk_loop.simps [simp del]

lemma step_of_pos: "0 < step_of ing"
  by (simp add: step_of_def)

lemma count_unroll:
  assumes "i < n" "0 < st"
  shows "(n - i + st - 1) div st = Suc ((n - (i + st) + st - 1) div st)"
proof (cases "i + st < n")
  case True
  define x where "x = n - (i + st) + st - 1"
  have "n - i + st - 1 = x + st" using True assms by (simp add: x_def)
  moreover have "(x + st) div st = Suc (x div st)" using assms(2) by simp
  ultimately show ?thesis by (simp only: x_def)
next
  case False
  then have a: "n - (i + st) + st - 1 = st - 1" by simp
  from False assms have b: "st \<le> n - i + st - 1" "n - i + st - 1 < st + st" by auto
  have "(n - i + st - 1) div st = 1"
    using b assms(2) by (intro div_nat_eqI) simp_all
  then show ?thesis using a assms by simp
qed

lemma offsets_unroll:
  assumes "i < n" "0 < st"
  shows "offsets n st i = i # offsets n st (i + st)"
  unfolding offsets_def count_unroll[OF assms]
  by (simp add: upt_rec[of 0] map_Suc_upt[symmetric] add.assoc del: upt_Suc)

lemma offsets_done:
  assumes "\<not> i < n" "0 < st"
  shows "offsets n st i = []"
  using assms by (simp add: offsets_def)

lemma chunk_loop_closed:
  "chunk_loop ing words i chunks =
     chunks @ filter (\<lambda>b. 50 < length b)
       (map (\<lambda>j. strip (join (slice words (int j) (int j + chunk_size ing))))
         (offsets (length words) (step_of ing) i))"
proof (induction ing words i chunks rule: chunk_loop.induct)
  case (1 ing words i chunks)
  let ?B = "\<lambda>j. strip (join (slice words (int j) (int j + chunk_size ing)))"
  show ?case
  proof (cases "i < length words")
    case True
    let ?acc = "if 50 < length (?B i) then chunks @ [?B i] else chunks"
    have u: "chunk_loop ing words i chunks = chunk_loop ing words (i + step_of ing) ?acc"
      by (subst chunk_loop.simps) (simp only: True if_True Let_def)
    have ih: "chunk_loop ing words (i + step_of ing) ?acc =
        ?acc @ filter (\<lambda>b. 50 < length b) (map ?B (offsets (length words) (step_of ing) (i + step_of ing)))"
      by (rule 1[OF True refl])
    have o: "offsets (length words) (step_of ing) i = i # offsets (length words) (step_of ing) (i + step_of ing)"
      by (rule offsets_unroll[OF True step_of_pos])
    show ?thesis
      unfolding u ih o by simp
  next
    case False
    have "chunk_loop ing words i chunks = chunks"
      by (subst chunk_loop.simps) (simp only: False if_False)
    then show ?thesis
      by (simp add: offsets_done[OF False step_of_pos])
  qed
qed

lemma split_acc_words:
  "\<forall>c\<in>set acc. \<not> isspace c \<Longrightarrow> w \<in> set (split_acc acc s) \<Longrightarrow> word w"
proof (induction s arbitrary: acc)
  case Nil
  then show ?case by (cases "acc = []") (simp_all add: word_def)
next
  case (Cons c cs)
  show ?case
  proof (cases "isspace c")
    case True
    show ?thesis
    proof (cases "acc = []")
      case True
      with \<open>isspace c\<close> Cons.prems(2) have "w \<in> set (split_acc [] cs)" by simp
      then show ?thesis by (rule Cons.IH[rotated]) simp
    next
      case False
      with \<open>isspace c\<close> Cons.prems(2) have "w = rev acc \<or> w \<in> set (split_acc [] cs)" by simp
      then show ?thesis
      proof
        assume "w = rev acc"
        then show ?thesis using False Cons.prems(1) by (simp add: word_def)
      next
        assume "w \<in> set (split_acc [] cs)"
        then show ?thesis by (rule Cons.IH[rotated]) simp
      qed
    qed
  next
    case False
    with Cons.prems(2) have "w \<in> set (split_acc (c # acc) cs)" by simp
    then show ?thesis
      by (rule Cons.IH[rotated]) (use False Cons.prems(1) in simp)
  qed
qed

lemma split_words: "w \<in> set (split s) \<Longrightarrow> word w"
  unfolding split_def using split_acc_words[of "[]" w s] by simp

lemma split_acc_word:
  "\<forall>c\<in>set w. \<not> isspace c \<Longrightarrow> split_acc acc (w @ r) = split_acc (rev w @ acc) r"
  by (induction w arbitrary: acc) simp_all

lemma split_join:
  "\<forall>w\<in>set ws. word w \<Longrightarrow> split (join ws) = ws"
proof (induction ws rule: join.induct)
  case 1
  then show ?case by (simp add: split_def)
next
  case (2 w)
  then have "split_acc [] (w @ []) = split_acc (rev w @ []) []"
    by (intro split_acc_word) (simp add: word_def)
  then show ?case using 2 by (simp add: split_def word_def)
next
  case (3 w v ws)
  have isp: "isspace CHR '' ''" by (simp add: isspace_def)
  have "split_acc [] (w @ (CHR '' '' # join (v # ws))) = split_acc (rev w @ []) (CHR '' '' # join (v # ws))"
    using 3(2) by (intro split_acc_word) (simp add: word_def)
  also have "\<dots> = w # split_acc [] (join (v # ws))"
    using 3(2) isp by (simp add: word_def)
  finally show ?case using 3 by (simp add: split_def)
qed

lemma join_length:
  "\<forall>w\<in>set ws. word w \<Longrightarrow> length ws \<le> length (join ws)"
proof (induction ws rule: join.induct)
  case (2 w)
  then show ?case by (cases w) (simp_all add: word_def)
qed simp_all

lemma join_ends:
  "\<forall>w\<in>set ws. word w \<Longrightarrow> ws \<noteq> [] \<Longrightarrow>
     \<not> isspace (hd (join ws)) \<and> \<not> isspace (last (join ws)) \<and> join ws \<noteq> []"
proof (induction ws rule: join.induct)
  case (2 w)
  then show ?case by (cases w) (auto simp: word_def)
next
  case (3 w v ws)
  then show ?case by (cases w) (auto simp: word_def)
qed simp

lemma strip_id:
  assumes "s = [] \<or> (\<not> isspace (hd s) \<and> \<not> isspace (last s))"
  shows "strip s = s"
proof (cases s)
  case Nil
  then show ?thesis by (simp add: strip_def)
next
  case (Cons c cs)
  with assms have h: "\<not> isspace (hd s)" and l: "\<not> isspace (last s)" by auto
  have 1: "dropWhile isspace s = s" using h Cons by simp
  have "rev s \<noteq> []" using Cons by simp
  moreover have "hd (rev s) = last s" using Cons by (simp add: hd_rev)
  ultimately have 2: "dropWhile isspace (rev s) = rev s"
    using l by (metis dropWhile_eq_self_iff)
  show ?thesis by (simp add: strip_def 1 2)
qed

lemma strip_join:
  assumes "\<forall>w\<in>set ws. word w"
  shows "strip (join ws) = join ws"
proof (cases "ws = []")
  case True
  then show ?thesis by (simp add: strip_def)
next
  case False
  then show ?thesis using join_ends[OF assms] by (intro strip_id) simp
qed

lemma window_words:
  "\<forall>w\<in>set (take c (drop i (split s))). word w"
proof
  fix w assume "w \<in> set (take c (drop i (split s)))"
  then have "w \<in> set (split s)" by (blast dest: in_set_takeD in_set_dropD)
  then show "word w" by (rule split_words)
qed

lemma slice_nonneg:
  "0 \<le> c \<Longrightarrow> slice xs (int i) (int i + c) = take (nat c) (drop i xs)"
  by (auto simp: slice_def clip_def min_def nat_add_distrib)

lemma chunk_text_closed:
  "chunk_text ing s = filter (\<lambda>b. 50 < length b)
       (map (\<lambda>j. strip (join (slice (split s) (int j) (int j + chunk_size ing))))
         (offsets (length (split s)) (step_of ing) 0))"
  by (simp add: chunk_text_def chunk_loop_closed)

lemma window_block:
  assumes "0 \<le> chunk_size ing"
  shows "strip (join (slice (split s) (int j) (int j + chunk_size ing)))
       = join (take (nat (chunk_size ing)) (drop j (split s)))"
  unfolding slice_nonneg[OF assms]
  by (rule strip_join) (rule window_words)

lemma window_long:
  assumes "50 < c" "j + c \<le> length (split s)"
  shows "50 < length (join (take c (drop j (split s))))"
proof -
  have "length (take c (drop j (split s))) \<le> length (join (take c (drop j (split s))))"
    by (rule join_length) (rule window_words)
  moreover have "length (take c (drop j (split s))) = c" using assms(2) by simp
  ultimately show ?thesis using assms(1) by simp
qed

text \<open>
  Claim C7. Every chunk that \<^verbatim>\<open>chunk_text\<close> produces is longer than 50 characters,
  for every text and every ingestor, and the empty string yields the empty list of chunks.
\<close>

theorem chunk_text_long:
  "(\<forall>c\<in>set (chunk_text ing s). 50 < length c) \<and> chunk_text ing [] = []"
proof
  show "\<forall>c\<in>set (chunk_text ing s). 50 < length c"
    unfolding chunk_text_closed by simp
  show "chunk_text ing [] = []"
    unfolding chunk_text_closed by (simp add: split_def offsets_done[OF _ step_of_pos])
qed

lemma chunk_text_general:
  assumes "0 \<le> chunk_size ing"
  shows "chunk_text ing s = filter (\<lambda>b. 50 < length b)
       (map (\<lambda>k. join (take (nat (chunk_size ing)) (drop (k * step_of ing) (split s))))
         [0..<(length (split s) + step_of ing - 1) div step_of ing])"
  unfolding chunk_text_closed offsets_def
  by (simp add: window_block[OF assms] comp_def)

lemma default_step: "step_of \<lparr>chunk_size = 500, overlap = 100\<rparr> = 400"
  by (simp add: step_of_def)

lemma chunk_text_1200:
  assumes "length (split s) = 1200"
  shows "chunk_text \<lparr>chunk_size = 500, overlap = 100\<rparr> s =
     [join (take 500 (split s)), join (take 500 (drop 400 (split s))),
      join (take 500 (drop 800 (split s)))]"
proof -
  have u: "[0..<(3::nat)] = [0, 1, 2]" by (simp add: upt_rec)
  have l0: "50 < length (join (take 500 (drop 0 (split s))))"
    by (rule window_long) (simp_all add: assms)
  have l1: "50 < length (join (take 500 (drop 400 (split s))))"
    by (rule window_long) (simp_all add: assms)
  have "50 < length (join (take 400 (drop 800 (split s))))"
    by (rule window_long) (simp_all add: assms)
  moreover have "take 400 (drop 800 (split s)) = take 500 (drop 800 (split s))"
    using assms by simp
  ultimately have l2: "50 < length (join (take 500 (drop 800 (split s))))" by simp
  show ?thesis
    using l0 l1 l2 by (simp add: chunk_text_general default_step assms u)
qed

text \<open>
  Claim C6. \<^verbatim>\<open>chunk_text\<close> splits the text into words and goes through the windows of
  \<open>chunk_size\<close> words that start at the offsets \<open>0, step, 2 * step, \<dots>\<close> below the number
  of words, where \<open>step = max 1 (chunk_size - overlap)\<close>, keeping the windows whose joined
  text is longer than 50 characters (stated for a chunk size that is not negative). For
  chunk size 500 and overlap 100 on a text of 1200 words the step is 400, the chunks are
  the windows at the offsets 0, 400 and 800, and the first 100 words of the second chunk are
  the last 100 words of the first.
\<close>

theorem chunk_text_windows:
  "(0 \<le> chunk_size ing \<longrightarrow>
      chunk_text ing s = filter (\<lambda>b. 50 < length b)
        (map (\<lambda>k. join (take (nat (chunk_size ing)) (drop (k * step_of ing) (split s))))
          [0..<(length (split s) + step_of ing - 1) div step_of ing]))
   \<and> step_of ing = nat (max 1 (chunk_size ing - overlap ing))
   \<and> (length (split s) = 1200 \<longrightarrow>
        step_of \<lparr>chunk_size = 500, overlap = 100\<rparr> = 400
      \<and> (let ws = split s;
              c0 = join (take 500 ws);
              c1 = join (take 500 (drop 400 ws));
              c2 = join (take 500 (drop 800 ws))
          in chunk_text \<lparr>chunk_size = 500, overlap = 100\<rparr> s = [c0, c1, c2]
           \<and> split c0 = take 500 ws
           \<and> split c1 = take 500 (drop 400 ws)
           \<and> split c2 = take 500 (drop 800 ws)
           \<and> take 100 (split c1) = drop 400 (split c0)))"
proof (intro conjI impI)
  assume "0 \<le> chunk_size ing"
  then show "chunk_text ing s = filter (\<lambda>b. 50 < length b)
        (map (\<lambda>k. join (take (nat (chunk_size ing)) (drop (k * step_of ing) (split s))))
          [0..<(length (split s) + step_of ing - 1) div step_of ing])"
    by (rule chunk_text_general)
next
  show "step_of ing = nat (max 1 (chunk_size ing - overlap ing))"
    by (simp add: step_of_def)
next
  show "step_of \<lparr>chunk_size = 500, overlap = 100\<rparr> = 400"
    by (rule default_step)
next
  assume n: "length (split s) = 1200"
  have sj: "split (join (take c (drop j (split s)))) = take c (drop j (split s))" for c j
    by (rule split_join) (rule window_words)
  have ov: "take 100 (take 500 (drop 400 (split s))) = drop 400 (take 500 (split s))"
    by (simp add: drop_take)
  show "let ws = split s;
              c0 = join (take 500 ws);
              c1 = join (take 500 (drop 400 ws));
              c2 = join (take 500 (drop 800 ws))
          in chunk_text \<lparr>chunk_size = 500, overlap = 100\<rparr> s = [c0, c1, c2]
           \<and> split c0 = take 500 ws
           \<and> split c1 = take 500 (drop 400 ws)
           \<and> split c2 = take 500 (drop 800 ws)
           \<and> take 100 (split c1) = drop 400 (split c0)"
    unfolding Let_def
    using chunk_text_1200[OF n] sj[of 500 0] sj[of 500 400] sj[of 500 800] ov
    by simp
qed

lemma split_acc_replicate:
  "split_acc [] (concat (replicate n ''w '')) = replicate n ''w''"
  by (induction n) (simp_all add: isspace_def)

theorem chunk_text_windows_witness:
  "(0::int) \<le> chunk_size \<lparr>chunk_size = 500, overlap = 100\<rparr>
   \<and> length (split (concat (replicate 1200 ''w ''))) = 1200
   \<and> length (chunk_text \<lparr>chunk_size = 500, overlap = 100\<rparr> (concat (replicate 1200 ''w ''))) = 3
   \<and> take 100 (split (chunk_text \<lparr>chunk_size = 500, overlap = 100\<rparr> (concat (replicate 1200 ''w '')) ! 1))
     = drop 400 (split (chunk_text \<lparr>chunk_size = 500, overlap = 100\<rparr> (concat (replicate 1200 ''w '')) ! 0))"
proof -
  have n: "length (split (concat (replicate 1200 ''w ''))) = 1200"
    by (simp add: split_def split_acc_replicate)
  note t = chunk_text_windows[of "\<lparr>chunk_size = 500, overlap = 100\<rparr>" "concat (replicate 1200 ''w '')",
      THEN conjunct2, THEN conjunct2, rule_format, OF n, THEN conjunct2, unfolded Let_def]
  show ?thesis
    using n t by (simp add: drop_take)
qed

theorem chunk_text_long_witness:
  "replicate 60 CHR ''a'' \<in> set (chunk_text \<lparr>chunk_size = 500, overlap = 100\<rparr> (replicate 60 CHR ''a''))
   \<and> 50 < length (replicate 60 CHR ''a'')"
proof -
  have "chunk_text \<lparr>chunk_size = 500, overlap = 100\<rparr> (replicate 60 CHR ''a'') = [replicate 60 CHR ''a'']"
    by code_simp
  then show ?thesis
    using chunk_text_long[of "\<lparr>chunk_size = 500, overlap = 100\<rparr>" "replicate 60 CHR ''a''"]
    by simp
qed

section \<open>Properties of the rounding\<close>

lemma rhe_bounds: "of_int (round_half_even x) \<le> x + 1 / 2" "x - 1 / 2 \<le> of_int (round_half_even x)"
  unfolding round_half_even_def Let_def by (auto; linarith)+

lemma rhe_near: "\<bar>x - of_int (round_half_even x)\<bar> \<le> 1 / 2"
  using rhe_bounds[of x] by linarith

lemma rhe_of_int: "round_half_even (of_int n) = n"
  by (simp add: round_half_even_def)

lemma rhe_mono:
  assumes "a \<le> b"
  shows "round_half_even a \<le> round_half_even b"
proof (cases "\<lfloor>a\<rfloor> = \<lfloor>b\<rfloor>")
  case True
  then show ?thesis
    using assms unfolding round_half_even_def Let_def by (auto; linarith)
next
  case False
  have "\<lfloor>a\<rfloor> \<le> \<lfloor>b\<rfloor>" using assms by (rule floor_mono)
  with False have lt: "\<lfloor>a\<rfloor> + 1 \<le> \<lfloor>b\<rfloor>" by linarith
  have "round_half_even a \<le> \<lfloor>a\<rfloor> + 1"
    unfolding round_half_even_def Let_def by auto
  moreover have "\<lfloor>b\<rfloor> \<le> round_half_even b"
    unfolding round_half_even_def Let_def by auto
  ultimately show ?thesis using lt by linarith
qed

lemma expo_bounds:
  assumes "0 < x"
  shows "2 powr of_int (expo x) \<le> x" "x < 2 powr (of_int (expo x) + 1)"
proof -
  have "of_int (expo x) \<le> log 2 x" using assms by (simp add: expo_def)
  then show "2 powr of_int (expo x) \<le> x"
    using assms by (simp add: le_log_iff)
  have "log 2 x < of_int (expo x) + 1" using assms by (simp add: expo_def)
  then show "x < 2 powr (of_int (expo x) + 1)"
    using assms by (simp add: log_less_iff)
qed

lemma expo_eq:
  assumes "2 powr of_int e \<le> x" "x < 2 powr (of_int e + 1)"
  shows "expo x = e"
proof -
  have x: "0 < x" using assms(1) powr_gt_zero[of 2 "of_int e"] by linarith
  have "of_int e \<le> log 2 x" using assms(1) x by (simp add: le_log_iff)
  moreover have "log 2 x < of_int e + 1" using assms(2) x by (simp add: log_less_iff)
  ultimately show ?thesis using x by (simp add: expo_def floor_eq_iff)
qed

lemma expo_mono:
  assumes "0 < x" "x \<le> y"
  shows "expo x \<le> expo y"
  using assms by (simp add: expo_def floor_mono)

lemma pw: "a + b = c \<Longrightarrow> (2::real) powr a * 2 powr b = 2 powr c"
  using powr_add[of 2 a b] by simp

lemma fl_eval:
  assumes "2 powr of_int e \<le> x" "x < 2 powr (of_int e + 1)"
  shows "fl x = of_int (round_half_even (x * 2 powr (52 - of_int e))) * 2 powr (of_int e - 52)"
proof -
  have "0 < x" using assms(1) powr_gt_zero[of 2 "of_int e"] by linarith
  then show ?thesis by (simp add: fl_def expo_eq[OF assms])
qed

lemma scaled_bounds:
  assumes "0 < x"
  shows "2 powr 52 \<le> x * 2 powr (52 - of_int (expo x))"
    and "x * 2 powr (52 - of_int (expo x)) \<le> 2 powr 53"
proof -
  let ?e = "of_int (expo x) :: real"
  have p: "0 < 2 powr (52 - ?e)" by simp
  have "2 powr ?e * 2 powr (52 - ?e) \<le> x * 2 powr (52 - ?e)"
    using expo_bounds(1)[OF assms] p by (simp only: mult_le_cancel_right_pos)
  moreover have "2 powr ?e * 2 powr (52 - ?e) = 2 powr 52"
    by (rule pw) simp
  ultimately show "2 powr 52 \<le> x * 2 powr (52 - ?e)" by linarith
  have "x * 2 powr (52 - ?e) \<le> 2 powr (?e + 1) * 2 powr (52 - ?e)"
    using expo_bounds(2)[OF assms] p by (simp only: mult_le_cancel_right_pos less_imp_le)
  moreover have "2 powr (?e + 1) * 2 powr (52 - ?e) = 2 powr 53"
    by (rule pw) simp
  ultimately show "x * 2 powr (52 - ?e) \<le> 2 powr 53" by linarith
qed

lemma two_powr_int: "(2::real) powr 52 = of_int (2 ^ 52)" "(2::real) powr 53 = of_int (2 ^ 53)"
  by simp_all

lemma rhe_scaled_bounds:
  assumes "0 < x"
  shows "2 ^ 52 \<le> round_half_even (x * 2 powr (52 - of_int (expo x)))"
    and "round_half_even (x * 2 powr (52 - of_int (expo x))) \<le> 2 ^ 53"
proof -
  from rhe_mono[OF scaled_bounds(1)[OF assms]]
  show "2 ^ 52 \<le> round_half_even (x * 2 powr (52 - of_int (expo x)))"
    by (simp only: two_powr_int rhe_of_int)
  from rhe_mono[OF scaled_bounds(2)[OF assms]]
  show "round_half_even (x * 2 powr (52 - of_int (expo x))) \<le> 2 ^ 53"
    by (simp only: two_powr_int rhe_of_int)
qed

lemma fl_bounds:
  assumes "0 < x"
  shows "2 powr of_int (expo x) \<le> fl x" and "fl x \<le> 2 powr (of_int (expo x) + 1)"
proof -
  let ?e = "of_int (expo x) :: real"
  let ?n = "round_half_even (x * 2 powr (52 - ?e))"
  have f: "fl x = of_int ?n * 2 powr (?e - 52)" using assms by (simp add: fl_def)
  have p: "0 < 2 powr (?e - 52)" by simp
  have "(2::real) powr 52 \<le> of_int ?n"
    using rhe_scaled_bounds(1)[OF assms] unfolding two_powr_int by (simp only: of_int_le_iff)
  then have a: "2 powr 52 * 2 powr (?e - 52) \<le> of_int ?n * 2 powr (?e - 52)"
    using p by (simp only: mult_le_cancel_right_pos)
  have b: "2 powr 52 * 2 powr (?e - 52) = 2 powr ?e" by (rule pw) simp
  show "2 powr ?e \<le> fl x" unfolding f using a b by linarith
  have "of_int ?n \<le> (2::real) powr 53"
    using rhe_scaled_bounds(2)[OF assms] unfolding two_powr_int by (simp only: of_int_le_iff)
  then have c: "of_int ?n * 2 powr (?e - 52) \<le> 2 powr 53 * 2 powr (?e - 52)"
    using p by (simp only: mult_le_cancel_right_pos)
  have d: "2 powr 53 * 2 powr (?e - 52) = 2 powr (?e + 1)" by (rule pw) simp
  show "fl x \<le> 2 powr (?e + 1)" unfolding f using c d by linarith
qed

lemma fl_pos: "0 < x \<Longrightarrow> 0 < fl x"
  using fl_bounds(1)[of x] powr_gt_zero[of 2 "of_int (expo x)"] by linarith

lemma fl_mono:
  assumes "0 < x" "x \<le> y"
  shows "fl x \<le> fl y"
proof (cases "expo x = expo y")
  case True
  have y: "0 < y" using assms by linarith
  let ?s = "2 powr (52 - of_int (expo y)) :: real"
  have "x * ?s \<le> y * ?s" using assms(2) by (simp add: mult_right_mono)
  from rhe_mono[OF this] have "(of_int (round_half_even (x * ?s)) :: real) \<le> of_int (round_half_even (y * ?s))"
    by (simp only: of_int_le_iff)
  then have "of_int (round_half_even (x * ?s)) * (2::real) powr (of_int (expo y) - 52)
      \<le> of_int (round_half_even (y * ?s)) * 2 powr (of_int (expo y) - 52)"
    by (rule mult_right_mono) simp
  then show ?thesis using assms(1) y True by (simp add: fl_def)
next
  case False
  have y: "0 < y" using assms by linarith
  from False expo_mono[OF assms] have "expo x + 1 \<le> expo y" by linarith
  then have "(of_int (expo x) + 1 :: real) \<le> of_int (expo y)" by linarith
  then have "(2::real) powr (of_int (expo x) + 1) \<le> 2 powr of_int (expo y)"
    by simp
  then show ?thesis
    using fl_bounds(2)[OF assms(1)] fl_bounds(1)[OF y] by linarith
qed

lemma fl_one: "fl 1 = 1"
proof -
  have "fl 1 = of_int (round_half_even (1 * 2 powr (52 - of_int 0))) * 2 powr (of_int 0 - 52)"
    by (rule fl_eval) simp_all
  also have "\<dots> = of_int (round_half_even (of_int (2 ^ 52))) * 2 powr (- 52)"
    by simp
  also have "\<dots> = 2 powr 52 * 2 powr (- 52)"
    by (simp only: rhe_of_int two_powr_int)
  also have "\<dots> = 1" using pw[of 52 "- 52" 0] by simp
  finally show ?thesis .
qed

lemma fl_sum_ge_one: "0 \<le> d \<Longrightarrow> 1 \<le> fl (1 + d)"
  using fl_mono[of 1 "1 + d"] by (simp add: fl_one)

lemma sim_nonneg:
  assumes "0 \<le> d"
  shows "sim d = Inr (fl (1 / fl (1 + d)))" "0 < fl (1 / fl (1 + d))" "fl (1 / fl (1 + d)) \<le> 1"
proof -
  have g: "1 \<le> fl (1 + d)" using assms by (rule fl_sum_ge_one)
  then show "sim d = Inr (fl (1 / fl (1 + d)))" by (simp add: sim_def)
  have p: "0 < 1 / fl (1 + d)" using g by simp
  then show "0 < fl (1 / fl (1 + d))" by (rule fl_pos)
  have "1 / fl (1 + d) \<le> 1" using g by simp
  from fl_mono[OF p this] show "fl (1 / fl (1 + d)) \<le> 1" by (simp add: fl_one)
qed

lemma sim_antimono:
  assumes "0 \<le> d1" "d1 \<le> d2"
  shows "fl (1 / fl (1 + d2)) \<le> fl (1 / fl (1 + d1))"
proof -
  have g1: "1 \<le> fl (1 + d1)" using assms(1) by (rule fl_sum_ge_one)
  have "fl (1 + d1) \<le> fl (1 + d2)" using assms by (intro fl_mono) simp_all
  then have "1 / fl (1 + d2) \<le> 1 / fl (1 + d1)" using g1 by (simp add: frac_le)
  moreover have "0 < 1 / fl (1 + d2)" using g1 \<open>fl (1 + d1) \<le> fl (1 + d2)\<close> by simp
  ultimately show ?thesis by (rule fl_mono[rotated])
qed

lemma powr_nat: "(2::real) powr of_int (int k) = 2 ^ k"
  by (simp add: powr_realpow)

lemma powr_neg_nat: "(2::real) powr of_int (- int k) = 1 / 2 ^ k"
  by (simp add: powr_minus powr_realpow divide_inverse)

lemma fl_eval_up:
  assumes "2 ^ k \<le> x" "x < 2 * 2 ^ k"
  shows "fl x = of_int (round_half_even (x * 2 ^ 52 / 2 ^ k)) * 2 ^ k / 2 ^ 52"
proof -
  have a: "2 powr of_int (int k) \<le> x" using assms(1) by (simp only: powr_nat)
  have "(2::real) powr (of_int (int k) + 1) = 2 * 2 ^ k"
    using pw[of "of_int (int k)" 1 "of_int (int k) + 1"] by (simp add: powr_realpow)
  then have b: "x < 2 powr (of_int (int k) + 1)" using assms(2) by simp
  have c: "(2::real) powr (52 - of_int (int k)) = 2 ^ 52 / 2 ^ k"
    using pw[of "52 - of_int (int k)" "of_int (int k)" 52] by (simp add: powr_realpow field_simps)
  have d: "(2::real) powr (of_int (int k) - 52) = 2 ^ k / 2 ^ 52"
    using pw[of "of_int (int k) - 52" 52 "of_int (int k)"] by (simp add: powr_realpow field_simps)
  show ?thesis unfolding fl_eval[OF a b] c d by simp
qed

lemma powr_neg_real: "(2::real) powr (- real k) = 1 / 2 ^ k"
  by (simp add: powr_minus powr_realpow divide_inverse)

lemma powr_one_minus: "(2::real) powr (1 - real k) = 2 / 2 ^ k"
  using pw[of 1 "- real k" "1 - real k"] by (simp add: powr_neg_real)

lemma powr_52_plus: "(2::real) powr (52 + real k) = 2 ^ 52 * 2 ^ k"
  using pw[of 52 "real k" "52 + real k"] by (simp add: powr_realpow)

lemma powr_neg_52: "(2::real) powr (- real k - 52) = 1 / (2 ^ 52 * 2 ^ k)"
proof -
  have "(2::real) powr (- real k - 52) * 2 powr (52 + real k) = 2 powr 0"
    by (rule pw) simp
  then have "(2::real) powr (- real k - 52) * (2 ^ 52 * 2 ^ k) = 1"
    by (simp only: powr_52_plus powr_zero_eq_one) simp
  then show ?thesis by (simp add: field_simps)
qed

lemma fl_eval_down:
  assumes "1 / 2 ^ k \<le> x" "x < 2 / 2 ^ k"
  shows "fl x = of_int (round_half_even (x * 2 ^ 52 * 2 ^ k)) / (2 ^ 52 * 2 ^ k)"
proof -
  have a: "2 powr of_int (- int k) \<le> x" using assms(1) by (simp add: powr_neg_real)
  have b: "x < 2 powr (of_int (- int k) + 1)" using assms(2) by (simp add: powr_one_minus)
  have c: "(2::real) powr (52 - of_int (- int k)) = 2 ^ 52 * 2 ^ k"
    by (simp add: powr_52_plus)
  have d: "(2::real) powr (of_int (- int k) - 52) = 1 / (2 ^ 52 * 2 ^ k)"
    by (simp add: powr_neg_52)
  show ?thesis unfolding fl_eval[OF a b] c d by (simp add: mult.assoc)
qed

lemma fl_tiny: "fl (1 + 1 / 2 ^ 60) = 1"
  by (subst fl_eval_up[of 0]) (simp_all add: round_half_even_def)

lemma fl_tiny2: "fl (1 + 1 / 2 ^ 59) = 1"
  by (subst fl_eval_up[of 0]) (simp_all add: round_half_even_def)

lemma fl_two: "fl 2 = 2"
  by (subst fl_eval_up[of 1]) (simp_all add: round_half_even_def)

lemma fl_half: "fl (1 / 2) = 1 / 2"
  by (subst fl_eval_down[of 1]) (simp_all add: round_half_even_def)

lemma fl_ten: "fl 10 = 10"
  by (subst fl_eval_up[of 3]) (simp_all add: round_half_even_def)

lemma fl_tenth: "fl (1 / 10) = 7205759403792794 / 72057594037927936"
  by (subst fl_eval_down[of 4]) (simp_all add: round_half_even_def)

lemma round2_tenth: "round2 (7205759403792794 / 72057594037927936) = 7205759403792794 / 72057594037927936"
  unfolding round2_def by (simp add: round_half_even_def fl_tenth)

section \<open>Properties of the retriever\<close>

text \<open>
  Claim C8, as stated, fails: the code computes the score in doubles, where the sum
  \<open>1 + d\<close> is rounded. At the distances \<open>2 ^ -60\<close> and \<open>2 ^ -59\<close>, which are not 0 and
  differ, the score is exactly 1 both times.
\<close>

theorem sim_not_strict_counterexample:
  "sim (1 / 2 ^ 60) = Inr 1 \<and> (1 / 2 ^ 60 :: real) \<noteq> 0
   \<and> sim (1 / 2 ^ 59) = Inr 1 \<and> (0 :: real) \<le> 1 / 2 ^ 60 \<and> (1 / 2 ^ 60 :: real) < 1 / 2 ^ 59"
proof -
  have "sim (1 / 2 ^ 60) = Inr 1" unfolding sim_def fl_tiny by (simp add: fl_one)
  moreover have "sim (1 / 2 ^ 59) = Inr 1" unfolding sim_def fl_tiny2 by (simp add: fl_one)
  ultimately show ?thesis by simp
qed

text \<open>
  Claim C8, amended. The score of a result at distance \<open>d \<ge> 0\<close> is \<open>1 / (1 + d)\<close> evaluated
  in doubles, the sum and the quotient each rounded to the nearest double; it lies in
  \<open>(0, 1]\<close>; it is 1 at distance 0; and of two distances \<open>0 \<le> d1 \<le> d2\<close> the smaller one
  has the greater or equal score. Distances range over the finite single-precision
  numbers.
\<close>

theorem sim_score_rounded:
  "(0 \<le> d \<and> d \<le> flt_max \<longrightarrow>
      sim d = Inr (fl (1 / fl (1 + d))) \<and> 0 < fl (1 / fl (1 + d)) \<and> fl (1 / fl (1 + d)) \<le> 1)
   \<and> sim 0 = Inr 1
   \<and> (0 \<le> d1 \<and> d1 \<le> d2 \<and> d2 \<le> flt_max \<longrightarrow>
        sim d1 = Inr (fl (1 / fl (1 + d1))) \<and> sim d2 = Inr (fl (1 / fl (1 + d2)))
        \<and> fl (1 / fl (1 + d2)) \<le> fl (1 / fl (1 + d1)))"
proof (intro conjI impI)
  assume "0 \<le> d \<and> d \<le> flt_max"
  then have d: "0 \<le> d" by simp
  from sim_nonneg[OF d] show "sim d = Inr (fl (1 / fl (1 + d)))" "0 < fl (1 / fl (1 + d))"
    "fl (1 / fl (1 + d)) \<le> 1" by simp_all
next
  show "sim 0 = Inr 1" by (simp add: sim_def fl_one)
next
  assume h: "0 \<le> d1 \<and> d1 \<le> d2 \<and> d2 \<le> flt_max"
  then have d1: "0 \<le> d1" and d2: "0 \<le> d2" and l: "d1 \<le> d2" by simp_all
  from sim_nonneg(1)[OF d1] show "sim d1 = Inr (fl (1 / fl (1 + d1)))" .
  from sim_nonneg(1)[OF d2] show "sim d2 = Inr (fl (1 / fl (1 + d2)))" .
  from sim_antimono[OF d1 l] show "fl (1 / fl (1 + d2)) \<le> fl (1 / fl (1 + d1))" .
qed

lemma sim_one: "sim 1 = Inr (1 / 2)"
  by (simp add: sim_def fl_two fl_half)

theorem sim_score_rounded_witness:
  "(0 :: real) \<le> 1 / 2 ^ 60 \<and> (1 / 2 ^ 60 :: real) \<le> 1 \<and> (1 :: real) \<le> flt_max
   \<and> sim (1 / 2 ^ 60) = Inr 1 \<and> sim 1 = Inr (1 / 2) \<and> (1 / 2 :: real) \<le> 1"
proof -
  have a: "(0 :: real) \<le> 1 / 2 ^ 60 \<and> (1 / 2 ^ 60 :: real) \<le> 1 \<and> (1 :: real) \<le> flt_max"
    by (simp add: flt_max_def)
  have b: "sim (1 / 2 ^ 60) = Inr 1" unfolding sim_def fl_tiny by (simp add: fl_one)
  from sim_score_rounded[of "1 / 2 ^ 60" "1 / 2 ^ 60" 1] a have "sim 1 = Inr (fl (1 / fl (1 + 1)))"
    by blast
  then have "sim 1 = Inr (1 / 2)" by (simp add: fl_two fl_half)
  with a b show ?thesis by simp
qed

lemma search_empty: "index st = [] \<Longrightarrow> search enc l2 st q k = Inr []"
  by (simp add: search_def)

text \<open>
  Claim C9. On an index without vectors, and in any state where \<^verbatim>\<open>search\<close> returns no
  result, \<^verbatim>\<open>retrieve\<close> returns the pair of the sentinel message and the empty list of
  citations, for every query and every \<open>top_k\<close>, and raises no error.
\<close>

theorem retrieve_sentinel:
  "(index st = [] \<longrightarrow> retrieve enc l2 st q k = Inr (''No relevant documents found.'', []))
   \<and> (search enc l2 st q k = Inr [] \<longrightarrow>
        retrieve enc l2 st q k = Inr (''No relevant documents found.'', []))"
  by (simp add: retrieve_def search_empty no_documents_def)

theorem retrieve_sentinel_witness:
  "index new_store = [] \<and> search enc_len l2sq new_store ''vacation policy'' 3 = Inr []
   \<and> retrieve enc_len l2sq new_store ''vacation policy'' 3
       = Inr (''No relevant documents found.'', [])"
proof -
  have a: "index new_store = []" by (simp add: new_store_def)
  have b: "search enc_len l2sq new_store ''vacation policy'' 3 = Inr []"
    by (simp add: search_def new_store_def)
  show ?thesis
    using a b retrieve_sentinel[of new_store enc_len l2sq "''vacation policy''" 3] by simp
qed

lemma sim_Inr: "sim d = Inr s \<Longrightarrow> s = fl (1 / fl (1 + d))"
  by (auto simp: sim_def split: if_splits)

lemma chunks_loop_retrieve_loop:
  "chunks_loop i rs cs cp ct =
     (case retrieve_loop i rs cp ct of
        Inl e \<Rightarrow> Inl e
      | Inr (cp', ct') \<Rightarrow>
          Inr (cs @ map (\<lambda>(m, d). \<lparr>mtext = mtext m, source = source m, chunk_id = chunk_id m,
                                   relevance_score = round2 (fl (1 / fl (1 + d)))\<rparr>) rs,
               cp', ct'))"
proof (induction rs arbitrary: i cs cp ct)
  case Nil
  then show ?case by simp
next
  case (Cons r rs)
  obtain m d where r: "r = (m, d)" by (cases r)
  show ?case
  proof (cases "sim d")
    case (Inl e)
    then show ?thesis by (simp add: r)
  next
    case (Inr s)
    then show ?thesis
      by (simp add: r sim_Inr[OF Inr] Cons.IH split: sum.splits prod.splits)
  qed
qed

lemma retrieve_loop_citations:
  "retrieve_loop i rs cp ct = Inr (cp', ct') \<Longrightarrow>
     ct' = ct @ map (\<lambda>(m, d). citation m (fl (1 / fl (1 + d)))) rs
     \<and> (\<forall>r\<in>set rs. sim (snd r) = Inr (fl (1 / fl (1 + snd r))))"
proof (induction rs arbitrary: i cp ct)
  case Nil
  then show ?case by simp
next
  case (Cons r rs)
  obtain m d where r: "r = (m, d)" by (cases r)
  show ?case
  proof (cases "sim d")
    case (Inl e)
    then show ?thesis using Cons.prems by (simp add: r)
  next
    case (Inr s)
    note s = sim_Inr[OF Inr]
    from Cons.prems have "retrieve_loop (Suc i) rs (cp @ [context_part i m]) (ct @ [citation m s])
        = Inr (cp', ct')"
      by (simp add: r Inr)
    from Cons.IH[OF this] show ?thesis using Inr by (simp add: r s)
  qed
qed

lemma round2_pinned:
  "\<exists>n. round2 x = fl (of_int n / 100) \<and> \<bar>x * 100 - of_int n\<bar> \<le> 1 / 2"
  unfolding round2_def using rhe_near[of "x * 100"] by blast

lemma retrieve_agree:
  "retrieve enc l2 st q k =
     map_sum id (\<lambda>(chunks, context, citations). (context, citations))
       (retrieve_with_chunks enc l2 st q k)"
proof (cases "search enc l2 st q k")
  case (Inl e)
  then show ?thesis by (simp add: retrieve_def retrieve_with_chunks_def)
next
  case (Inr results)
  then show ?thesis
    by (auto simp: retrieve_def retrieve_with_chunks_def chunks_loop_retrieve_loop
             split: sum.splits prod.splits)
qed

lemma chunks_described:
  assumes "retrieve_with_chunks enc l2 st q k = Inr (chunks, context, citations)"
  shows "\<exists>results. search enc l2 st q k = Inr results
     \<and> list_all2 (\<lambda>c r. mtext c = mtext (fst r) \<and> source c = source (fst r)
          \<and> chunk_id c = chunk_id (fst r)
          \<and> sim (snd r) = Inr (fl (1 / fl (1 + snd r)))
          \<and> (\<exists>n. relevance_score c = fl (of_int n / 100)
                \<and> \<bar>fl (1 / fl (1 + snd r)) * 100 - of_int n\<bar> \<le> 1 / 2))
        chunks results
     \<and> citations = map (\<lambda>r. citation (fst r) (fl (1 / fl (1 + snd r)))) results"
proof (cases "search enc l2 st q k")
  case (Inl e)
  then show ?thesis using assms by (simp add: retrieve_with_chunks_def)
next
  case (Inr results)
  show ?thesis
  proof (cases "results = []")
    case True
    then show ?thesis using assms Inr by (simp add: retrieve_with_chunks_def)
  next
    case False
    from assms Inr False obtain cp where
      l: "chunks_loop 1 results [] [] [] = Inr (chunks, cp, citations)"
      by (auto simp: retrieve_with_chunks_def split: sum.splits prod.splits)
    then obtain cp' ct' where rl: "retrieve_loop 1 results [] [] = Inr (cp', ct')"
      by (auto simp: chunks_loop_retrieve_loop split: sum.splits prod.splits)
    from l rl have ch: "chunks = map (\<lambda>(m, d). \<lparr>mtext = mtext m, source = source m,
          chunk_id = chunk_id m, relevance_score = round2 (fl (1 / fl (1 + d)))\<rparr>) results"
      and ct: "citations = ct'"
      by (simp_all add: chunks_loop_retrieve_loop)
    from retrieve_loop_citations[OF rl]
    have c: "ct' = map (\<lambda>(m, d). citation m (fl (1 / fl (1 + d)))) results"
      and s: "\<forall>r\<in>set results. sim (snd r) = Inr (fl (1 / fl (1 + snd r)))"
      by simp_all
    have "list_all2 (\<lambda>c r. mtext c = mtext (fst r) \<and> source c = source (fst r)
          \<and> chunk_id c = chunk_id (fst r)
          \<and> sim (snd r) = Inr (fl (1 / fl (1 + snd r)))
          \<and> (\<exists>n. relevance_score c = fl (of_int n / 100)
                \<and> \<bar>fl (1 / fl (1 + snd r)) * 100 - of_int n\<bar> \<le> 1 / 2))
        chunks results"
      unfolding ch list_all2_map1
    proof (rule list.rel_refl_strong)
      fix r assume "r \<in> set results"
      with s have "sim (snd r) = Inr (fl (1 / fl (1 + snd r)))" by blast
      then show "mtext (case r of (m, d) \<Rightarrow> \<lparr>mtext = mtext m, source = source m,
            chunk_id = chunk_id m, relevance_score = round2 (fl (1 / fl (1 + d)))\<rparr>) = mtext (fst r)
          \<and> source (case r of (m, d) \<Rightarrow> \<lparr>mtext = mtext m, source = source m,
            chunk_id = chunk_id m, relevance_score = round2 (fl (1 / fl (1 + d)))\<rparr>) = source (fst r)
          \<and> chunk_id (case r of (m, d) \<Rightarrow> \<lparr>mtext = mtext m, source = source m,
            chunk_id = chunk_id m, relevance_score = round2 (fl (1 / fl (1 + d)))\<rparr>) = chunk_id (fst r)
          \<and> sim (snd r) = Inr (fl (1 / fl (1 + snd r)))
          \<and> (\<exists>n. relevance_score (case r of (m, d) \<Rightarrow> \<lparr>mtext = mtext m, source = source m,
            chunk_id = chunk_id m, relevance_score = round2 (fl (1 / fl (1 + d)))\<rparr>) = fl (of_int n / 100)
                \<and> \<bar>fl (1 / fl (1 + snd r)) * 100 - of_int n\<bar> \<le> 1 / 2)"
        using round2_pinned[of "fl (1 / fl (1 + snd r))"] by (cases r) simp
    qed
    moreover have "citations = map (\<lambda>r. citation (fst r) (fl (1 / fl (1 + snd r)))) results"
      unfolding ct c by (simp add: case_prod_beta)
    ultimately show ?thesis using Inr by simp
  qed
qed

text \<open>
  Claim C10. For every query, \<open>top_k\<close> and store, \<^verbatim>\<open>retrieve\<close> returns the context and the
  citations that \<^verbatim>\<open>retrieve_with_chunks\<close> returns (and fails with the same error when it
  fails). The chunk objects of \<^verbatim>\<open>retrieve_with_chunks\<close> are the ranked search results, one
  each and in order, with their text, source and chunk id; the relevance score of each is
  the double nearest to a number of hundredths that lies within half a hundredth of the
  score \<open>1 / (1 + d)\<close> as computed in doubles, and this score is the one printed in the
  citation of the same rank.
\<close>

theorem retrieve_variants_agree:
  "retrieve enc l2 st q k =
     map_sum id (\<lambda>(chunks, context, citations). (context, citations))
       (retrieve_with_chunks enc l2 st q k)
   \<and> (retrieve_with_chunks enc l2 st q k = Inr (chunks, context, citations) \<longrightarrow>
        (\<exists>results. search enc l2 st q k = Inr results
           \<and> list_all2 (\<lambda>c r. mtext c = mtext (fst r) \<and> source c = source (fst r)
                \<and> chunk_id c = chunk_id (fst r)
                \<and> sim (snd r) = Inr (fl (1 / fl (1 + snd r)))
                \<and> (\<exists>n. relevance_score c = fl (of_int n / 100)
                      \<and> \<bar>fl (1 / fl (1 + snd r)) * 100 - of_int n\<bar> \<le> 1 / 2))
              chunks results
           \<and> citations = map (\<lambda>r. citation (fst r) (fl (1 / fl (1 + snd r)))) results))"
  using retrieve_agree[of enc l2 st q k] chunks_described[of enc l2 st q k chunks "context" citations]
  by blast

lemma sample_store_eq:
  "sample_store = \<lparr>index = [[1], [5], [3]],
    metadata =
      [\<lparr>mtext = ''a'', source = ''s.txt'', chunk_id = 0\<rparr>,
       \<lparr>mtext = ''bbbbb'', source = ''s.txt'', chunk_id = 1\<rparr>,
       \<lparr>mtext = ''ccc'', source = ''s.txt'', chunk_id = 2\<rparr>]\<rparr>"
  by (simp add: sample_store_def add_all_def add_documents_def new_store_def no_files_def
        enc_len_def Let_def)

lemma sample_search:
  "search enc_len l2sq sample_store ''abcdef'' 2 =
     Inr [(\<lparr>mtext = ''bbbbb'', source = ''s.txt'', chunk_id = 1\<rparr>, 1),
          (\<lparr>mtext = ''ccc'', source = ''s.txt'', chunk_id = 2\<rparr>, 9)]"
  by (simp add: sample_store_eq search_def faiss_search_def enc_len_def l2sq_def
        enumerate_eq_zip upt_rec)

lemma sim_nine: "sim 9 = Inr (3602879701896397 / 36028797018963968)"
  by (simp add: sim_def fl_ten fl_tenth)

lemma round2_half: "round2 (1 / 2) = 1 / 2"
  by (simp add: round2_def round_half_even_def fl_half)

lemma round2_tenth': "round2 (3602879701896397 / 36028797018963968) = 3602879701896397 / 36028797018963968"
  by (simp add: round2_def round_half_even_def fl_tenth)

lemma sample_chunks_loop:
  "chunks_loop 1
     [(\<lparr>mtext = ''bbbbb'', source = ''s.txt'', chunk_id = 1\<rparr>, 1),
      (\<lparr>mtext = ''ccc'', source = ''s.txt'', chunk_id = 2\<rparr>, 9)] [] [] [] =
   Inr ([\<lparr>mtext = ''bbbbb'', source = ''s.txt'', chunk_id = 1, relevance_score = 1 / 2\<rparr>,
         \<lparr>mtext = ''ccc'', source = ''s.txt'', chunk_id = 2,
           relevance_score = 3602879701896397 / 36028797018963968\<rparr>],
        [context_part 1 \<lparr>mtext = ''bbbbb'', source = ''s.txt'', chunk_id = 1\<rparr>,
         context_part 2 \<lparr>mtext = ''ccc'', source = ''s.txt'', chunk_id = 2\<rparr>],
        [citation \<lparr>mtext = ''bbbbb'', source = ''s.txt'', chunk_id = 1\<rparr> (1 / 2),
         citation \<lparr>mtext = ''ccc'', source = ''s.txt'', chunk_id = 2\<rparr>
           (3602879701896397 / 36028797018963968)])"
  by (simp add: sim_one sim_nine round2_half round2_tenth' numeral_2_eq_2)

lemma digit_chars:
  "digit 0 = CHR ''0''" "digit 1 = CHR ''1''" "digit 2 = CHR ''2''" "digit 3 = CHR ''3''"
  "digit 4 = CHR ''4''" "digit 5 = CHR ''5''" "digit 6 = CHR ''6''" "digit 7 = CHR ''7''"
  "digit 8 = CHR ''8''" "digit 9 = CHR ''9''" "digit (Suc 0) = CHR ''1''"
  by code_simp+

lemma sample_citation:
  "citation \<lparr>mtext = ''ccc'', source = ''s.txt'', chunk_id = 2\<rparr>
     (3602879701896397 / 36028797018963968) = ''s.txt (Chunk 2, Relevance: 0.10)''"
  by (simp add: citation_def format_2f_def str_int_def round_half_even_def digit_chars)

theorem retrieve_variants_agree_witness:
  "retrieve_with_chunks enc_len l2sq sample_store ''abcdef'' 2 =
     Inr ([\<lparr>mtext = ''bbbbb'', source = ''s.txt'', chunk_id = 1, relevance_score = 1 / 2\<rparr>,
           \<lparr>mtext = ''ccc'', source = ''s.txt'', chunk_id = 2,
             relevance_score = 3602879701896397 / 36028797018963968\<rparr>],
          sep_join delimiter
            [context_part 1 \<lparr>mtext = ''bbbbb'', source = ''s.txt'', chunk_id = 1\<rparr>,
             context_part 2 \<lparr>mtext = ''ccc'', source = ''s.txt'', chunk_id = 2\<rparr>],
          [citation \<lparr>mtext = ''bbbbb'', source = ''s.txt'', chunk_id = 1\<rparr> (1 / 2),
           ''s.txt (Chunk 2, Relevance: 0.10)''])
   \<and> retrieve enc_len l2sq sample_store ''abcdef'' 2 =
     Inr (sep_join delimiter
            [context_part 1 \<lparr>mtext = ''bbbbb'', source = ''s.txt'', chunk_id = 1\<rparr>,
             context_part 2 \<lparr>mtext = ''ccc'', source = ''s.txt'', chunk_id = 2\<rparr>],
          [citation \<lparr>mtext = ''bbbbb'', source = ''s.txt'', chunk_id = 1\<rparr> (1 / 2),
           ''s.txt (Chunk 2, Relevance: 0.10)''])"
proof -
  have w: "retrieve_with_chunks enc_len l2sq sample_store ''abcdef'' 2 =
     Inr ([\<lparr>mtext = ''bbbbb'', source = ''s.txt'', chunk_id = 1, relevance_score = 1 / 2\<rparr>,
           \<lparr>mtext = ''ccc'', source = ''s.txt'', chunk_id = 2,
             relevance_score = 3602879701896397 / 36028797018963968\<rparr>],
          sep_join delimiter
            [context_part 1 \<lparr>mtext = ''bbbbb'', source = ''s.txt'', chunk_id = 1\<rparr>,
             context_part 2 \<lparr>mtext = ''ccc'', source = ''s.txt'', chunk_id = 2\<rparr>],
          [citation \<lparr>mtext = ''bbbbb'', source = ''s.txt'', chunk_id = 1\<rparr> (1 / 2),
           ''s.txt (Chunk 2, Relevance: 0.10)''])"
    unfolding retrieve_with_chunks_def sample_search
    by (simp only: sample_chunks_loop sample_citation sum.case prod.case list.distinct if_False)
  show ?thesis
    using w retrieve_variants_agree[of enc_len l2sq sample_store "''abcdef''" 2] by simp
qed

lemma format_tie_example: "format_2f (fl (1 / fl (1 + 39))) = ''0.03''"
proof -
  have a: "fl 40 = 40"
    by (subst fl_eval_up[of 5]) (simp_all add: round_half_even_def)
  have b: "fl (1 / 40) = 3602879701896397 / 144115188075855872"
    by (subst fl_eval_down[of 6]) (simp_all add: round_half_even_def)
  show ?thesis
    by (simp add: a b format_2f_def round_half_even_def digit_chars)
qed

section \<open>Properties of the vector store\<close>

text \<open>
  Claim C4. When the source is already among the stored metadata, \<^verbatim>\<open>add_documents\<close> changes
  nothing: the store and the persisted artifacts are returned as they were, so the
  index, the metadata list and \<^verbatim>\<open>total_documents\<close> of \<^verbatim>\<open>get_stats\<close> are unchanged, and no error
  is raised (the function has no failing branch).
\<close>

theorem add_documents_duplicate_noop:
  "src \<in> set (map source (metadata st)) \<longrightarrow>
     add_documents enc (st, d) chunks src = (st, d)
     \<and> index (fst (add_documents enc (st, d) chunks src)) = index st
     \<and> metadata (fst (add_documents enc (st, d) chunks src)) = metadata st
     \<and> total_documents (get_stats (fst (add_documents enc (st, d) chunks src)))
         = total_documents (get_stats st)"
  by (auto simp: add_documents_def list_ex_iff)

theorem add_documents_duplicate_noop_witness:
  "''s.txt'' \<in> set (map source (metadata sample_store))
   \<and> add_documents enc_len (sample_store, no_files) [''dd'', ''e''] ''s.txt'' = (sample_store, no_files)
   \<and> total_documents (get_stats (fst (add_documents enc_len (sample_store, no_files) [''dd'', ''e''] ''s.txt''))) = 1"
proof -
  have a: "''s.txt'' \<in> set (map source (metadata sample_store))"
    by (simp add: sample_store_eq)
  have b: "total_documents (get_stats sample_store) = 1"
    by (simp add: sample_store_eq get_stats_def)
  show ?thesis
    using a b add_documents_duplicate_noop[of "''s.txt''" sample_store enc_len no_files "[''dd'', ''e'']"]
    by simp
qed

text \<open>
  Claim C2, as stated, fails: the constructor loads an index of one vector with an empty
  metadata list and returns the instance, and with only the index file present it
  returns a fresh empty instance; neither is an error.
\<close>

theorem init_unchecked_counterexample:
  "init \<lparr>index_file = Some [[0]], meta_file = Some []\<rparr> = Inr \<lparr>index = [[0]], metadata = []\<rparr>
   \<and> length [[0::real]] \<noteq> length ([] :: meta list)
   \<and> init \<lparr>index_file = Some [[0]], meta_file = None\<rparr> = Inr \<lparr>index = [], metadata = []\<rparr>"
  by (simp add: init_def)

text \<open>
  Claim C2, amended. With both artifacts present the constructor loads them as they
  are, whatever their lengths; with one of them missing it creates a fresh empty index;
  it never raises a consistency error.
\<close>

theorem init_loads_unchecked:
  "(index_file d = Some iv \<and> meta_file d = Some md \<longrightarrow>
        init d = Inr \<lparr>index = iv, metadata = md\<rparr>)
   \<and> (index_file d = None \<or> meta_file d = None \<longrightarrow>
        init d = Inr \<lparr>index = [], metadata = []\<rparr>)
   \<and> \<not> isl (init d)"
  by (auto simp: init_def split: option.splits)

theorem init_loads_unchecked_witness:
  "index_file \<lparr>index_file = Some [[1], [2]], meta_file = Some [\<lparr>mtext = ''a'', source = ''s.txt'', chunk_id = 0\<rparr>]\<rparr> = Some [[1], [2]]
   \<and> init \<lparr>index_file = Some [[1], [2]], meta_file = Some [\<lparr>mtext = ''a'', source = ''s.txt'', chunk_id = 0\<rparr>]\<rparr>
       = Inr \<lparr>index = [[1], [2]], metadata = [\<lparr>mtext = ''a'', source = ''s.txt'', chunk_id = 0\<rparr>]\<rparr>
   \<and> meta_file \<lparr>index_file = Some [[1], [2]], meta_file = None\<rparr> = None
   \<and> init \<lparr>index_file = Some [[1], [2]], meta_file = None\<rparr> = Inr \<lparr>index = [], metadata = []\<rparr>"
  using init_loads_unchecked[of "\<lparr>index_file = Some [[1], [2]], meta_file = Some [\<lparr>mtext = ''a'', source = ''s.txt'', chunk_id = 0\<rparr>]\<rparr>" "[[1], [2]]" "[\<lparr>mtext = ''a'', source = ''s.txt'', chunk_id = 0\<rparr>]"]
        init_loads_unchecked[of "\<lparr>index_file = Some [[1], [2]], meta_file = None\<rparr>"]
  by simp

section \<open>The alignment of index and metadata\<close>

lemma append_meta_eq:
  "append_meta md src i ts =
     md @ map (\<lambda>(j, t). \<lparr>mtext = t, source = src, chunk_id = int j\<rparr>) (enumerate i ts)"
  by (induction ts arbitrary: md i) simp_all

lemma add_documents_accepted:
  assumes "src \<notin> set (map source (metadata st))" "chunks \<noteq> []"
  shows "add_documents enc (st, d) chunks src =
     (\<lparr>index = index st @ map enc chunks,
       metadata = metadata st
         @ map (\<lambda>(j, t). \<lparr>mtext = t, source = src, chunk_id = int j\<rparr>) (enumerate 0 chunks)\<rparr>,
      \<lparr>index_file = Some (index st @ map enc chunks),
       meta_file = Some (metadata st
         @ map (\<lambda>(j, t). \<lparr>mtext = t, source = src, chunk_id = int j\<rparr>) (enumerate 0 chunks))\<rparr>)"
  using assms
  by (auto simp: add_documents_def list_ex_iff Let_def append_meta_eq save_def)

lemma add_documents_cases:
  "add_documents enc (st, d) chunks src = (st, d)
   \<or> (src \<notin> set (map source (metadata st)) \<and> chunks \<noteq> [])"
  by (auto simp: add_documents_def list_ex_iff)

lemma map_mtext_enumerate:
  "map (\<lambda>m. enc (mtext m))
     (map (\<lambda>(j, t). \<lparr>mtext = t, source = src, chunk_id = int j\<rparr>) (enumerate i ts))
   = map enc ts"
  by (induction ts arbitrary: i) simp_all

lemma add_documents_aligned:
  assumes "index st = map (\<lambda>m. enc (mtext m)) (metadata st)"
  shows "index (fst (add_documents enc (st, d) chunks src))
       = map (\<lambda>m. enc (mtext m)) (metadata (fst (add_documents enc (st, d) chunks src)))"
proof -
  from add_documents_cases[of enc st d chunks src] show ?thesis
  proof
    assume "add_documents enc (st, d) chunks src = (st, d)"
    then show ?thesis using assms by simp
  next
    assume "src \<notin> set (map source (metadata st)) \<and> chunks \<noteq> []"
    then show ?thesis
      using assms by (simp add: add_documents_accepted map_mtext_enumerate[unfolded map_map])
  qed
qed

lemma add_all_aligned:
  assumes "index (fst sd) = map (\<lambda>m. enc (mtext m)) (metadata (fst sd))"
  shows "index (fst (add_all enc sd calls))
       = map (\<lambda>m. enc (mtext m)) (metadata (fst (add_all enc sd calls)))"
  using assms
proof (induction calls arbitrary: sd)
  case Nil
  then show ?case by (simp add: add_all_def)
next
  case (Cons c calls)
  have "index (fst (add_documents enc sd (fst c) (snd c)))
      = map (\<lambda>m. enc (mtext m)) (metadata (fst (add_documents enc sd (fst c) (snd c))))"
    using add_documents_aligned[of "fst sd" enc "snd sd" "fst c" "snd c"] Cons.prems by simp
  from Cons.IH[OF this] show ?case by (simp add: add_all_def)
qed

text \<open>
  Claim C1. After any sequence of \<^verbatim>\<open>add_documents\<close> calls on a fresh store the index and the
  metadata list have the same length, and the vector at every position is the embedding
  of the text of the metadata record at that position. An accepted call (new source,
  at least one chunk) appends the embeddings of the chunks to the index and one metadata
  record per chunk, in the order of the chunks, and persists both lists as they then
  are.
\<close>

theorem add_documents_alignment:
  "(let st = fst (add_all enc (new_store, d) calls)
    in length (index st) = length (metadata st)
       \<and> (\<forall>i<length (index st). index st ! i = enc (mtext (metadata st ! i))))
   \<and> (src \<notin> set (map source (metadata st0)) \<and> chunks \<noteq> [] \<longrightarrow>
        index (fst (add_documents enc (st0, d0) chunks src)) = index st0 @ map enc chunks
      \<and> metadata (fst (add_documents enc (st0, d0) chunks src))
          = metadata st0
            @ map (\<lambda>(j, t). \<lparr>mtext = t, source = src, chunk_id = int j\<rparr>) (enumerate 0 chunks)
      \<and> snd (add_documents enc (st0, d0) chunks src)
          = save (fst (add_documents enc (st0, d0) chunks src)))"
proof (intro conjI impI)
  have a: "index (fst (add_all enc (new_store, d) calls))
      = map (\<lambda>m. enc (mtext m)) (metadata (fst (add_all enc (new_store, d) calls)))"
    by (rule add_all_aligned) (simp add: new_store_def)
  show "let st = fst (add_all enc (new_store, d) calls)
    in length (index st) = length (metadata st)
       \<and> (\<forall>i<length (index st). index st ! i = enc (mtext (metadata st ! i)))"
    unfolding Let_def by (simp add: a)
next
  assume h: "src \<notin> set (map source (metadata st0)) \<and> chunks \<noteq> []"
  then have e: "add_documents enc (st0, d0) chunks src =
     (\<lparr>index = index st0 @ map enc chunks,
       metadata = metadata st0
         @ map (\<lambda>(j, t). \<lparr>mtext = t, source = src, chunk_id = int j\<rparr>) (enumerate 0 chunks)\<rparr>,
      \<lparr>index_file = Some (index st0 @ map enc chunks),
       meta_file = Some (metadata st0
         @ map (\<lambda>(j, t). \<lparr>mtext = t, source = src, chunk_id = int j\<rparr>) (enumerate 0 chunks))\<rparr>)"
    by (intro add_documents_accepted) simp_all
  show "index (fst (add_documents enc (st0, d0) chunks src)) = index st0 @ map enc chunks"
    by (simp add: e)
  show "metadata (fst (add_documents enc (st0, d0) chunks src))
          = metadata st0
            @ map (\<lambda>(j, t). \<lparr>mtext = t, source = src, chunk_id = int j\<rparr>) (enumerate 0 chunks)"
    by (simp add: e)
  show "snd (add_documents enc (st0, d0) chunks src)
          = save (fst (add_documents enc (st0, d0) chunks src))"
    by (simp add: e save_def)
qed

theorem add_documents_alignment_witness:
  "(1::nat) < length (index sample_store)
   \<and> index sample_store ! 1 = enc_len (mtext (metadata sample_store ! 1))
   \<and> ''t.txt'' \<notin> set (map source (metadata sample_store)) \<and> [''dd''] \<noteq> []
   \<and> index (fst (add_documents enc_len (sample_store, no_files) [''dd''] ''t.txt''))
       = [[1], [5], [3], [2]]"
proof -
  note t = add_documents_alignment[of enc_len no_files
      "[([''a'', ''bbbbb'', ''ccc''], ''s.txt'')]" "''t.txt''" sample_store "[''dd'']" no_files,
      folded sample_store_def, unfolded Let_def]
  have l: "(1::nat) < length (index sample_store)" by (simp add: sample_store_eq)
  have n: "''t.txt'' \<notin> set (map source (metadata sample_store))" by (simp add: sample_store_eq)
  have i: "index sample_store = [[1], [5], [3]]" by (simp add: sample_store_eq)
  from t l have "index sample_store ! 1 = enc_len (mtext (metadata sample_store ! 1))" by blast
  moreover from t n have "index (fst (add_documents enc_len (sample_store, no_files) [''dd''] ''t.txt''))
      = index sample_store @ map enc_len [''dd'']" by blast
  ultimately show ?thesis using l n i by (simp add: enc_len_def)
qed

section \<open>Properties of the ingest endpoint\<close>

lemma endswith_append: "endswith b suf \<Longrightarrow> endswith (a @ b) suf"
  by (auto simp: endswith_def)

lemma endswith_Cons: "endswith b suf \<Longrightarrow> endswith (c # b) suf"
  using endswith_append[of b suf "[c]"] by simp

lemma endswith_path_join:
  assumes "endswith fname suf"
  shows "endswith (path_join a fname) suf"
proof (cases "fname = []")
  case True
  with assms have "suf = []" by (simp add: endswith_def)
  then show ?thesis by (simp add: endswith_def)
next
  case False
  then show ?thesis
    using assms by (simp add: path_join_def endswith_append endswith_Cons)
qed

lemma process_document_valid:
  assumes "endswith fname ''.pdf'' \<or> endswith fname ''.txt''"
  shows "process_document ing (path_join ''data'' fname) content
       = (chunk_text ing content, basename (path_join ''data'' fname))"
  using assms endswith_path_join[of fname "''.pdf''" "''data''"]
        endswith_path_join[of fname "''.txt''" "''data''"]
  by (auto simp: process_document_def Let_def)

lemma ingest_response:
  "fst (ingest enc ing cw sd fname content) =
     (if \<not> (endswith fname ''.pdf'' \<or> endswith fname ''.txt'')
      then Inl (HTTPException 400 ''Only PDF/TXT supported'')
      else if \<not> cw (path_join ''data'' fname) then Inl OSError
      else if chunk_text ing content = [] then Inl (HTTPException 400 ''No extractable text'')
      else Inr \<lparr>status = ''success'', filename = basename (path_join ''data'' fname),
                chunks_created = length (chunk_text ing content)\<rparr>)"
proof (cases "endswith fname ''.pdf'' \<or> endswith fname ''.txt''")
  case True
  show ?thesis
    unfolding ingest_def Let_def process_document_valid[OF True]
    using True by simp
next
  case False
  then show ?thesis by (simp add: ingest_def)
qed

lemma ingest_state:
  "snd (ingest enc ing cw sd fname content) =
     (if (endswith fname ''.pdf'' \<or> endswith fname ''.txt'') \<and> cw (path_join ''data'' fname)
         \<and> chunk_text ing content \<noteq> []
      then add_documents enc sd (chunk_text ing content) (basename (path_join ''data'' fname))
      else sd)"
proof (cases "endswith fname ''.pdf'' \<or> endswith fname ''.txt''")
  case True
  show ?thesis
    unfolding ingest_def Let_def process_document_valid[OF True]
    using True by simp
next
  case False
  then show ?thesis by (simp add: ingest_def)
qed







lemma ingest_write_failure:
  assumes "endswith fname ''.pdf'' \<or> endswith fname ''.txt''" "\<not> cw (path_join ''data'' fname)"
  shows "ingest enc ing cw sd fname content = (Inl OSError, sd)"
  using assms by (simp add: prod_eq_iff ingest_response ingest_state)

section \<open>Properties of the search\<close>

lemma collect_eq:
  "collect md DI out =
     out @ map (\<lambda>(d, i). (md ! nat i, d))
             (filter (\<lambda>(d, i). 0 \<le> i \<and> i < int (length md)) DI)"
proof (induction DI arbitrary: out)
  case Nil
  then show ?case by simp
next
  case (Cons p DI)
  obtain d i where p: "p = (d, i)" by (cases p)
  show ?case
    by (cases "0 \<le> i \<and> i < int (length md)") (simp_all add: p Cons.IH)
qed

lemma pairs_upt:
  "map (\<lambda>(i, x). (l2 qv x, int i)) (enumerate 0 xs)
     = map (\<lambda>i. (l2 qv (xs ! i), int i)) [0..<length xs]"
proof (rule nth_equalityI)
  show "length (map (\<lambda>(i, x). (l2 qv x, int i)) (enumerate 0 xs))
      = length (map (\<lambda>i. (l2 qv (xs ! i), int i)) [0..<length xs])"
    by simp
next
  fix i
  assume "i < length (map (\<lambda>(i, x). (l2 qv x, int i)) (enumerate 0 xs))"
  then have "i < length xs" by simp
  then show "map (\<lambda>(i, x). (l2 qv x, int i)) (enumerate 0 xs) ! i
      = map (\<lambda>i. (l2 qv (xs ! i), int i)) [0..<length xs] ! i"
    by (simp add: nth_enumerate_eq)
qed

lemma distinct_map_insort_key:
  "distinct (map g (insort_key f x xs)) = (g x \<notin> g ` set xs \<and> distinct (map g xs))"
  by (induction xs) (auto simp: set_insort_key)

lemma distinct_map_sort_key:
  "distinct (map g (sort_key f xs)) = distinct (map g xs)"
  by (induction xs) (simp_all add: distinct_map_insort_key)

lemma ranked_length: "length (ranked l2 qv xs) = length xs"
  by (simp add: ranked_def)

lemma ranked_set:
  "set (ranked l2 qv xs) = (\<lambda>i. (l2 qv (xs ! i), int i)) ` {..<length xs}"
  by (simp add: ranked_def pairs_upt atLeast0LessThan)

lemma ranked_sorted: "sorted (map fst (ranked l2 qv xs))"
  by (simp add: ranked_def)

lemma ranked_distinct: "distinct (map snd (ranked l2 qv xs))"
proof -
  have "map snd (map (\<lambda>i. (l2 qv (xs ! i), int i)) [0..<length xs]) = map int [0..<length xs]"
    by simp
  moreover have "distinct (map int [0..<length xs])"
    by (simp add: distinct_map)
  ultimately show ?thesis
    unfolding ranked_def distinct_map_sort_key pairs_upt by (simp only:)
qed

lemma ranked_mem:
  assumes "e \<in> set (ranked l2 qv xs)"
  shows "0 \<le> snd e" "nat (snd e) < length xs" "fst e = l2 qv (xs ! nat (snd e))"
  using assms by (auto simp: ranked_set)

lemma faiss_search_ranked:
  assumes "0 < k" "k \<le> int (length xs)"
  shows "faiss_search l2 xs qv k = Inr (take (nat k) (ranked l2 qv xs))"
  using assms by (simp add: faiss_search_def ranked_def)

lemma take_drop_sorted:
  assumes "sorted (map f xs)" "a \<in> set (take m xs)" "b \<in> set (drop m xs)"
  shows "f a \<le> f b"
proof -
  have "map f (take m xs) @ map f (drop m xs) = map f xs"
    by (simp only: map_append[symmetric] append_take_drop_id)
  then have "sorted (map f (take m xs) @ map f (drop m xs))"
    using assms(1) by (simp only:)
  then show ?thesis
    using assms(2,3) by (auto simp: sorted_append)
qed

lemma nat_min_int: "0 < k \<Longrightarrow> nat (min k (int n)) = min (nat k) n"
  by (simp add: min_def) linarith

lemma search_aligned:
  assumes al: "length (index st) = length (metadata st)" and k: "0 < k"
  shows "search enc l2 st q k =
     Inr (map (\<lambda>(d, i). (metadata st ! nat i, d))
            (take (min (nat k) (length (index st))) (ranked l2 (enc q) (index st))))"
proof (cases "index st = []")
  case True
  then show ?thesis by (simp add: search_def ranked_def)
next
  case False
  let ?n = "length (index st)"
  let ?tops = "take (min (nat k) ?n) (ranked l2 (enc q) (index st))"
  have n: "0 < ?n" using False by simp
  have m: "0 < min k (int ?n)" "min k (int ?n) \<le> int ?n" using k n by simp_all
  have f: "faiss_search l2 (index st) (enc q) (min k (int ?n)) = Inr ?tops"
    using faiss_search_ranked[OF m] by (simp only: nat_min_int[OF k])
  have "\<forall>e\<in>set ?tops. (\<lambda>(d, i). 0 \<le> i \<and> i < int (length (metadata st))) e"
  proof
    fix e assume "e \<in> set ?tops"
    then have "e \<in> set (ranked l2 (enc q) (index st))" by (rule in_set_takeD)
    from ranked_mem(1,2)[OF this] show "(\<lambda>(d, i). 0 \<le> i \<and> i < int (length (metadata st))) e"
      using al by (cases e) simp
  qed
  then have fl: "filter (\<lambda>(d, i). 0 \<le> i \<and> i < int (length (metadata st))) ?tops = ?tops"
    by (simp only: filter_id_conv)
  show ?thesis
    using False by (simp add: search_def f collect_eq fl)
qed

lemma top_positions:
  fixes l2 :: "vector \<Rightarrow> vector \<Rightarrow> real"
  assumes t: "tops = take m (ranked l2 qv xs)" and p: "ps = map (\<lambda>e. nat (snd e)) tops"
  shows "distinct ps"
    and "\<forall>p\<in>set ps. p < length xs"
    and "map (\<lambda>(d, i). (md ! nat i, d)) tops = map (\<lambda>p. (md ! p, l2 qv (xs ! p))) ps"
    and "sorted (map fst tops)"
    and "\<forall>j<length xs. j \<notin> set ps \<longrightarrow> (\<forall>e\<in>set tops. fst e \<le> l2 qv (xs ! j))"
proof -
  have sub: "e \<in> set tops \<Longrightarrow> e \<in> set (ranked l2 qv xs)" for e
    unfolding t by (rule in_set_takeD)
  have "map snd tops = take m (map snd (ranked l2 qv xs))" by (simp add: t take_map)
  then have ds: "distinct (map snd tops)"
    using ranked_distinct[of l2 qv xs] by (simp only: distinct_take)
  have inj: "inj_on nat (set (map snd tops))"
  proof (rule inj_onI)
    fix a b assume a: "a \<in> set (map snd tops)" and b: "b \<in> set (map snd tops)"
      and e: "nat a = nat b"
    from a obtain ea where "ea \<in> set tops" "a = snd ea" by auto
    with ranked_mem(1)[OF sub] have "0 \<le> a" by simp
    moreover from b obtain eb where "eb \<in> set tops" "b = snd eb" by auto
    with ranked_mem(1)[OF sub] have "0 \<le> b" by simp
    ultimately show "a = b" using e by simp
  qed
  have "distinct (map nat (map snd tops))"
    using ds inj by (simp only: distinct_map simp_thms)
  then show "distinct ps" by (simp add: p comp_def)
  show "\<forall>p\<in>set ps. p < length xs"
    using ranked_mem(2)[OF sub] by (auto simp: p)
  show "map (\<lambda>(d, i). (md ! nat i, d)) tops = map (\<lambda>p. (md ! p, l2 qv (xs ! p))) ps"
    unfolding p map_map
  proof (rule map_cong[OF refl])
    fix e assume "e \<in> set tops"
    from ranked_mem(3)[OF sub[OF this]]
    show "(\<lambda>(d, i). (md ! nat i, d)) e
        = ((\<lambda>p. (md ! p, l2 qv (xs ! p))) \<circ> (\<lambda>e. nat (snd e))) e"
      by (cases e) simp
  qed
  have "map fst tops = take m (map fst (ranked l2 qv xs))" by (simp add: t take_map)
  then show "sorted (map fst tops)"
    using ranked_sorted[of l2 qv xs] by (simp only: sorted_wrt_take)
  show "\<forall>j<length xs. j \<notin> set ps \<longrightarrow> (\<forall>e\<in>set tops. fst e \<le> l2 qv (xs ! j))"
  proof (intro allI impI ballI)
    fix j e assume j: "j < length xs" "j \<notin> set ps" and e: "e \<in> set tops"
    let ?c = "(l2 qv (xs ! j), int j)"
    have c: "?c \<in> set (ranked l2 qv xs)" using j(1) by (simp add: ranked_set)
    have "?c \<notin> set tops"
    proof
      assume "?c \<in> set tops"
      then have "nat (snd ?c) \<in> (\<lambda>e. nat (snd e)) ` set tops" by (rule imageI)
      then show False using j(2) by (simp add: p)
    qed
    moreover have "set (ranked l2 qv xs) = set tops \<union> set (drop m (ranked l2 qv xs))"
      unfolding t by (simp only: set_append[symmetric] append_take_drop_id)
    ultimately have d: "?c \<in> set (drop m (ranked l2 qv xs))" using c by blast
    from e have e': "e \<in> set (take m (ranked l2 qv xs))" by (simp only: t)
    from take_drop_sorted[OF ranked_sorted e' d]
    show "fst e \<le> l2 qv (xs ! j)" by simp
  qed
qed

text \<open>
  Claim C5, as stated, fails. \<^verbatim>\<open>search\<close> drops every result whose position has no
  metadata record: on a loaded store with one vector and an empty metadata list it
  returns no result for \<open>k = 1\<close>, not \<open>min 1 1 = 1\<close>. And FAISS rejects a \<open>k\<close> that is not
  positive: on a store with three vectors, \<open>k = -1\<close> gives an error.
\<close>

theorem search_count_counterexample:
  "search enc_len l2sq \<lparr>index = [[0]], metadata = []\<rparr> ''q'' 1 = Inr []
   \<and> min (1 :: nat) (length (index \<lparr>index = [[0]], metadata = []\<rparr>)) = 1
   \<and> search enc_len l2sq sample_store ''q'' (- 1) = Inl AssertionError"
  by (simp add: search_def faiss_search_def enc_len_def l2sq_def sample_store_eq
        enumerate_eq_zip upt_rec)

text \<open>
  Claim C5, amended. On a store whose metadata list is as long as its index (as after
  any sequence of \<^verbatim>\<open>add_documents\<close> calls on a fresh store), for every query and every
  \<open>k \<ge> 1\<close>, \<^verbatim>\<open>search\<close> returns exactly \<open>min k n\<close> results, where \<open>n\<close> is the number of vectors:
  they are the metadata records of \<open>min k n\<close> distinct positions, each with the distance
  between the query vector and the vector at its position as the index computes it, in
  ascending order of distance, and no vector at another position is nearer than any of
  them. On an index with 3 vectors and \<open>k = 10\<close> it returns exactly 3 results, and on an
  index without vectors it returns the empty list for every \<open>k\<close>, without error.
\<close>

theorem search_top_k:
  "(length (index st) = length (metadata st) \<and> 0 < k \<longrightarrow>
     (\<exists>res ps. search enc l2 st q k = Inr res
        \<and> length res = min (nat k) (length (index st))
        \<and> sorted (map snd res)
        \<and> distinct ps \<and> (\<forall>p\<in>set ps. p < length (index st))
        \<and> res = map (\<lambda>p. (metadata st ! p, l2 (enc q) (index st ! p))) ps
        \<and> (\<forall>j<length (index st). j \<notin> set ps \<longrightarrow>
              (\<forall>r\<in>set res. snd r \<le> l2 (enc q) (index st ! j)))))
   \<and> (index st = [] \<longrightarrow> search enc l2 st q k = Inr [])
   \<and> (length (index st) = 3 \<and> length (metadata st) = 3 \<longrightarrow>
        (\<exists>res. search enc l2 st q 10 = Inr res \<and> length res = 3))"
proof (intro conjI impI)
  assume h: "length (index st) = length (metadata st) \<and> 0 < k"
  then have al: "length (index st) = length (metadata st)" and k: "0 < k" by simp_all
  let ?m = "min (nat k) (length (index st))"
  define tops where "tops = take ?m (ranked l2 (enc q) (index st))"
  define ps where "ps = map (\<lambda>e. nat (snd e)) tops"
  define res where "res = map (\<lambda>(d, i). (metadata st ! nat i, d)) tops"
  note tp = top_positions[OF tops_def ps_def]
  have s: "search enc l2 st q k = Inr res"
    unfolding res_def tops_def by (rule search_aligned[OF al k])
  have l: "length res = ?m"
    by (simp add: res_def tops_def ranked_length)
  have sn: "map snd res = map fst tops"
    by (simp add: res_def case_prod_beta)
  have so: "sorted (map snd res)" unfolding sn by (rule tp(4))
  have r: "res = map (\<lambda>p. (metadata st ! p, l2 (enc q) (index st ! p))) ps"
    unfolding res_def by (rule tp(3))
  have far: "\<forall>j<length (index st). j \<notin> set ps \<longrightarrow>
      (\<forall>r\<in>set res. snd r \<le> l2 (enc q) (index st ! j))"
  proof (intro allI impI ballI)
    fix j r assume j: "j < length (index st)" "j \<notin> set ps" and "r \<in> set res"
    then have "snd r \<in> set (map fst tops)" unfolding sn[symmetric] by simp
    then obtain e where "e \<in> set tops" "snd r = fst e" by auto
    with tp(5) j show "snd r \<le> l2 (enc q) (index st ! j)" by simp
  qed
  show "\<exists>res ps. search enc l2 st q k = Inr res
        \<and> length res = min (nat k) (length (index st))
        \<and> sorted (map snd res)
        \<and> distinct ps \<and> (\<forall>p\<in>set ps. p < length (index st))
        \<and> res = map (\<lambda>p. (metadata st ! p, l2 (enc q) (index st ! p))) ps
        \<and> (\<forall>j<length (index st). j \<notin> set ps \<longrightarrow>
              (\<forall>r\<in>set res. snd r \<le> l2 (enc q) (index st ! j)))"
    using s l so tp(1) tp(2) r far by blast
next
  assume "index st = []"
  then show "search enc l2 st q k = Inr []" by (simp add: search_def)
next
  assume h: "length (index st) = 3 \<and> length (metadata st) = 3"
  then have al: "length (index st) = length (metadata st)" by simp
  have "search enc l2 st q 10 =
     Inr (map (\<lambda>(d, i). (metadata st ! nat i, d))
            (take (min (nat 10) (length (index st))) (ranked l2 (enc q) (index st))))"
    by (rule search_aligned[OF al]) simp
  moreover have "length (map (\<lambda>(d, i). (metadata st ! nat i, d))
            (take (min (nat 10) (length (index st))) (ranked l2 (enc q) (index st)))) = 3"
    using h by (simp add: ranked_length)
  ultimately show "\<exists>res. search enc l2 st q 10 = Inr res \<and> length res = 3" by blast
qed

lemma sample_search_all:
  "search enc_len l2sq sample_store ''abcdef'' 10 =
     Inr [(\<lparr>mtext = ''bbbbb'', source = ''s.txt'', chunk_id = 1\<rparr>, 1),
          (\<lparr>mtext = ''ccc'', source = ''s.txt'', chunk_id = 2\<rparr>, 9),
          (\<lparr>mtext = ''a'', source = ''s.txt'', chunk_id = 0\<rparr>, 25)]"
  by (simp add: sample_store_eq search_def faiss_search_def enc_len_def l2sq_def
        enumerate_eq_zip upt_rec)

theorem search_top_k_witness:
  "length (index sample_store) = length (metadata sample_store) \<and> (0 :: int) < 10
   \<and> length (index sample_store) = 3
   \<and> search enc_len l2sq sample_store ''abcdef'' 10 =
     Inr [(\<lparr>mtext = ''bbbbb'', source = ''s.txt'', chunk_id = 1\<rparr>, 1),
          (\<lparr>mtext = ''ccc'', source = ''s.txt'', chunk_id = 2\<rparr>, 9),
          (\<lparr>mtext = ''a'', source = ''s.txt'', chunk_id = 0\<rparr>, 25)]
   \<and> index new_store = [] \<and> search enc_len l2sq new_store ''abcdef'' 10 = Inr []"
proof -
  have a: "length (index sample_store) = length (metadata sample_store)"
    "length (index sample_store) = 3" "index new_store = []"
    by (simp_all add: sample_store_eq new_store_def)
  note t = search_top_k[of sample_store 10 enc_len l2sq "''abcdef''"]
  note e = search_top_k[of new_store 10 enc_len l2sq "''abcdef''"]
  from e a(3) have "search enc_len l2sq new_store ''abcdef'' 10 = Inr []" by blast
  moreover from t a have "\<exists>res. search enc_len l2sq sample_store ''abcdef'' 10 = Inr res
      \<and> length res = 3" by simp
  ultimately show ?thesis using a sample_search_all by simp
qed

end
